theory Spec2Isabelle
  imports Main "HOL-Library.Finite_Map" "HOL-Library.Multiset"
begin

section \<open>The dependency graph manager (class AntlrFacade)\<close>

text \<open>
  The facade maps grammar file names to context entries, each with a reference count and
  the list of dependency paths that were resolved at the entry's last parse. The model
  follows the class method by method. What lives outside the class is a parameter:
  the file system (\<open>fs.accessSync\<close>, \<open>fs.statSync\<close>, \<open>fs.readFileSync\<close>), Node's
  \<open>path\<close> functions, and the SourceContext collaborator (its \<open>parse\<close>, which yields the
  referenced grammar names, and its \<open>hasErrors\<close> and \<open>isInterpreterDataLoaded\<close> getters).
\<close>

subsection \<open>Data\<close>

text \<open>
  A SourceContext object is created by \<open>new SourceContext(fileName)\<close>. Its identity is
  the allocation number \<open>ctx_id\<close>; \<open>sourceText\<close> is what \<open>setText\<close> stored last.
\<close>

record SourceContext =
  ctx_id :: nat
  fileName :: string
  sourceText :: string

text \<open>The interface ContextEntry; \<open>refCount\<close> is a JavaScript number that is only
  ever incremented, decremented and compared with 0.\<close>

record ContextEntry =
  "context" :: SourceContext
  refCount :: int
  dependencies :: "string list"
  grammar :: string

text \<open>The class fields: the private map, the constructor's \<open>importDir\<close>, and the
  allocation counter for SourceContext objects.\<close>

record AntlrFacade =
  sourceContexts :: "(string, ContextEntry) fmap"
  importDir :: string
  nextContext :: nat

record SelfDiagnostics =
  contextCount :: nat

text \<open>Everything the facade calls but does not define.\<close>

record Environment =
  fs_accessSync :: "string \<Rightarrow> bool"
  fs_statSync :: "string \<Rightarrow> bool"
  fs_readFileSync :: "string \<Rightarrow> string option"
  path_dirname :: "string \<Rightarrow> string"
  path_join :: "string \<Rightarrow> string \<Rightarrow> string"
  path_isAbsolute :: "string \<Rightarrow> bool"
  parse :: "string \<Rightarrow> string list"
  hasErrors :: "SourceContext \<Rightarrow> bool"
  isInterpreterDataLoaded :: "SourceContext \<Rightarrow> bool"

text \<open>
  The interface FormattingOptions maps option names to booleans, numbers and strings.
\<close>

datatype optionValue = BooleanValue bool | NumberValue int | StringValue string

type_synonym FormattingOptions = "(string \<times> optionValue) list"

text \<open>
  A query forwards to a SourceContext method, or calls the caller's callback; the calls
  a facade method makes are its observable result. Row, column and index are JavaScript
  numbers. The option objects are passed through unread.
\<close>

datatype ('g, 'o) call =
    Callback string int
  | SetupInterpreters SourceContext string
  | SymbolAtPosition SourceContext int int bool
  | GetDiagnostics SourceContext
  | GetReferenceCount SourceContext string
  | Generate SourceContext "SourceContext list" 'g
  | GenerateSentence SourceContext "SourceContext list" string 'o
  | NewGrammarDebugger "SourceContext list" string
  | GetSymbolInfo SourceContext string
  | EnclosingSymbolAtPosition SourceContext int int bool
  | ListTopLevelSymbols SourceContext bool
  | GetVocabulary SourceContext
  | GetRuleList SourceContext
  | GetChannels SourceContext
  | GetModes SourceContext
  | ListActions SourceContext
  | GetCodeCompletionCandidates SourceContext int int
  | RuleFromPosition SourceContext int int
  | GetSymbolOccurrences SourceContext string bool
  | GetReferenceGraph SourceContext
  | GetRRDScript SourceContext string
  | GetATNGraph SourceContext string
  | LexTestInput SourceContext string "string option"
  | ParseTestInput SourceContext string string "string option"
  | FormatGrammar SourceContext FormattingOptions int int
  | HasErrors SourceContext
  | Info SourceContext

subsection \<open>Small helpers for the map of entries\<close>

definition lookupEntry :: "AntlrFacade \<Rightarrow> string \<Rightarrow> ContextEntry option" where
  "lookupEntry s fname = fmlookup (sourceContexts s) fname"

definition setEntry :: "AntlrFacade \<Rightarrow> string \<Rightarrow> ContextEntry \<Rightarrow> AntlrFacade" where
  "setEntry s fname e = s\<lparr>sourceContexts := fmupd fname e (sourceContexts s)\<rparr>"

definition deleteEntry :: "AntlrFacade \<Rightarrow> string \<Rightarrow> AntlrFacade" where
  "deleteEntry s fname = s\<lparr>sourceContexts := fmdrop fname (sourceContexts s)\<rparr>"

text \<open>
  An entry object is reached through the map under its own \<open>grammar\<close> name for as long
  as a method mutates it, so a mutation of the object is an update at that key.
\<close>

definition modifyEntry :: "AntlrFacade \<Rightarrow> string \<Rightarrow> (ContextEntry \<Rightarrow> ContextEntry) \<Rightarrow> AntlrFacade" where
  "modifyEntry s fname f =
     (case lookupEntry s fname of None \<Rightarrow> s | Some e \<Rightarrow> setEntry s fname (f e))"

definition contextCard :: "AntlrFacade \<Rightarrow> nat" where
  "contextCard s = card (fmdom' (sourceContexts s))"

text \<open>\<open>Set<SourceContext>.add\<close>: insertion order, membership by object identity.\<close>

definition setAdd :: "SourceContext list \<Rightarrow> SourceContext \<Rightarrow> SourceContext list" where
  "setAdd contexts c = (if ctx_id c \<in> ctx_id ` set contexts then contexts else contexts @ [c])"

subsection \<open>getSelfDiagnostics\<close>

text \<open>
  The method reads \<open>this.sourceContexts.keys.length\<close>: \<open>keys\<close> is not called, so the
  value is the \<open>length\<close> property of the function \<open>Map.prototype.keys\<close>, its number of
  declared parameters.
\<close>

definition Map_keys_length :: "(string, ContextEntry) fmap \<Rightarrow> nat" where
  "Map_keys_length m = 0"

definition getSelfDiagnostics :: "AntlrFacade \<Rightarrow> SelfDiagnostics" where
  "getSelfDiagnostics s = \<lparr>contextCount = Map_keys_length (sourceContexts s)\<rparr>"

subsection \<open>releaseGrammar and internalReleaseGrammar\<close>

text \<open>
  \<open>internalReleaseGrammar\<close> and its loop over \<open>contextEntry.dependencies\<close>. The second
  parameter \<open>referencing\<close> only serves \<open>removeDependency\<close> on an entry that has already
  left the map, so it does not appear. The dependency list is read from the entry that
  was found before the deletion.
\<close>

function internalReleaseGrammar :: "AntlrFacade \<Rightarrow> string \<Rightarrow> AntlrFacade"
  and releaseDependencies :: "AntlrFacade \<Rightarrow> string list \<Rightarrow> AntlrFacade" where
  "internalReleaseGrammar s fname =
     (case lookupEntry s fname of
        None \<Rightarrow> s
      | Some contextEntry \<Rightarrow>
          (if refCount contextEntry - 1 = 0
           then releaseDependencies (deleteEntry s fname) (dependencies contextEntry)
           else setEntry s fname (contextEntry\<lparr>refCount := refCount contextEntry - 1\<rparr>)))"
| "releaseDependencies s [] = s"
| "releaseDependencies s (dep # deps) =
     releaseDependencies (internalReleaseGrammar s dep) deps"
  by pat_completeness auto

definition releaseGrammar :: "AntlrFacade \<Rightarrow> string \<Rightarrow> AntlrFacade" where
  "releaseGrammar s fname = internalReleaseGrammar s fname"

subsection \<open>loadGrammar, parseGrammar and loadDependency\<close>

text \<open>
  \<open>loadGrammar\<close>, \<open>parseGrammar\<close> and \<open>loadDependency\<close> call each other for as long as
  the files on disk name further files, so they carry fuel: one unit for each new file
  that is parsed on the way down. \<open>None\<close> is fuel running out. Passing an entry stands
  for passing the entry object: only its \<open>grammar\<close>, its \<open>context\<close> and, on entering
  \<open>parseGrammar\<close>, its \<open>dependencies\<close> are read from it.

  \<open>addAsReferenceTo\<close> and \<open>removeDependency\<close> keep the collaborator's own reference
  lists; no decision of the facade reads them and they are not part of this state.
\<close>

definition readSource :: "Environment \<Rightarrow> string \<Rightarrow> string" where
  "readSource env fname =
     (if fs_statSync env fname
      then (case fs_readFileSync env fname of Some text \<Rightarrow> text | None \<Rightarrow> [])
      else [])"

definition pushDependency :: "AntlrFacade \<Rightarrow> ContextEntry \<Rightarrow> string \<Rightarrow> AntlrFacade" where
  "pushDependency s contextEntry depPath =
     modifyEntry s (grammar contextEntry) (\<lambda>e. e\<lparr>dependencies := dependencies e @ [depPath]\<rparr>)"

definition withContext :: "(AntlrFacade \<times> SourceContext) option \<Rightarrow> (AntlrFacade \<times> SourceContext option) option" where
  "withContext r = (case r of None \<Rightarrow> None | Some (s, c) \<Rightarrow> Some (s, Some c))"

function loadGrammar :: "nat \<Rightarrow> Environment \<Rightarrow> AntlrFacade \<Rightarrow> string \<Rightarrow> string option \<Rightarrow> (AntlrFacade \<times> SourceContext) option"
  and parseGrammar :: "nat \<Rightarrow> Environment \<Rightarrow> AntlrFacade \<Rightarrow> ContextEntry \<Rightarrow> AntlrFacade option"
  and loadNewDependencies :: "nat \<Rightarrow> Environment \<Rightarrow> AntlrFacade \<Rightarrow> ContextEntry \<Rightarrow> string list \<Rightarrow> AntlrFacade option"
  and loadDependency :: "nat \<Rightarrow> Environment \<Rightarrow> AntlrFacade \<Rightarrow> ContextEntry \<Rightarrow> string \<Rightarrow> (AntlrFacade \<times> SourceContext option) option"
  where
  "loadGrammar n env s fname source =
     (case lookupEntry s fname of
        Some contextEntry \<Rightarrow>
          Some (setEntry s fname (contextEntry\<lparr>refCount := refCount contextEntry + 1\<rparr>),
                context contextEntry)
      | None \<Rightarrow>
          (case n of
             0 \<Rightarrow> None
           | Suc m \<Rightarrow>
               (let text = (case source of
                              None \<Rightarrow> readSource env fname
                            | Some t \<Rightarrow> if t = [] then readSource env fname else t);
                    ctx = \<lparr>ctx_id = nextContext s, fileName = fname, sourceText = text\<rparr>;
                    contextEntry = \<lparr>context = ctx, refCount = 0, dependencies = [], grammar = fname\<rparr>;
                    s1 = (setEntry s fname contextEntry)\<lparr>nextContext := Suc (nextContext s)\<rparr>
                in case parseGrammar m env s1 contextEntry of
                     None \<Rightarrow> None
                   | Some s2 \<Rightarrow>
                       Some (modifyEntry s2 fname (\<lambda>e. e\<lparr>refCount := refCount e + 1\<rparr>), ctx))))"
| "parseGrammar n env s contextEntry =
     (let oldDependencies = dependencies contextEntry;
          s1 = modifyEntry s (grammar contextEntry) (\<lambda>e. e\<lparr>dependencies := []\<rparr>);
          newDependencies = parse env (sourceText (context contextEntry))
      in case loadNewDependencies n env s1 contextEntry newDependencies of
           None \<Rightarrow> None
         | Some s2 \<Rightarrow> Some (foldl releaseGrammar s2 oldDependencies))"
| "loadNewDependencies n env s contextEntry [] = Some s"
| "loadNewDependencies n env s contextEntry (dep # deps) =
     (case loadDependency n env s contextEntry dep of
        None \<Rightarrow> None
      | Some (s', depContext) \<Rightarrow> loadNewDependencies n env s' contextEntry deps)"
| "loadDependency n env s contextEntry depName =
     (let basePath = path_dirname env (grammar contextEntry);
          fullPath = (if path_isAbsolute env (importDir s) then importDir s
                      else path_join env basePath (importDir s))
      in if fs_accessSync env (path_join env fullPath (depName @ ''.g4''))
         then withContext (loadGrammar n env
                (pushDependency s contextEntry (path_join env fullPath (depName @ ''.g4'')))
                (path_join env fullPath (depName @ ''.g4'')) None)
         else if fs_accessSync env (path_join env fullPath (depName @ ''.g''))
         then withContext (loadGrammar n env
                (pushDependency s contextEntry (path_join env fullPath (depName @ ''.g'')))
                (path_join env fullPath (depName @ ''.g'')) None)
         else if fs_statSync env (path_join env basePath (depName @ ''.g4''))
         then withContext (loadGrammar n env
                (pushDependency s contextEntry (path_join env basePath (depName @ ''.g4'')))
                (path_join env basePath (depName @ ''.g4'')) None)
         else if fs_statSync env (path_join env basePath (depName @ ''.g''))
         then withContext (loadGrammar n env
                (pushDependency s contextEntry (path_join env basePath (depName @ ''.g'')))
                (path_join env basePath (depName @ ''.g'')) None)
         else Some (s, None))"
  by pat_completeness auto
termination
  by (relation "measures
    [\<lambda>x. case x of Inl (Inl (n, _)) \<Rightarrow> n | Inl (Inr (n, _)) \<Rightarrow> n
                     | Inr (Inl (n, _)) \<Rightarrow> n | Inr (Inr (n, _)) \<Rightarrow> n,
     \<lambda>x. case x of Inl (Inl _) \<Rightarrow> 0 | Inl (Inr _) \<Rightarrow> 3
                     | Inr (Inl _) \<Rightarrow> 2 | Inr (Inr _) \<Rightarrow> 1,
     \<lambda>x. case x of Inl _ \<Rightarrow> 0
                     | Inr (Inl (n, env, s, ce, ds)) \<Rightarrow> length ds | Inr (Inr _) \<Rightarrow> 0]") auto

declare loadGrammar.simps [simp del]
declare parseGrammar.simps [simp del]
declare loadDependency.simps [simp del]

subsection \<open>setText, reparse and getContext\<close>

definition setText :: "AntlrFacade \<Rightarrow> string \<Rightarrow> string \<Rightarrow> AntlrFacade" where
  "setText s fname source =
     (case lookupEntry s fname of
        None \<Rightarrow> s
      | Some contextEntry \<Rightarrow>
          setEntry s fname (contextEntry\<lparr>context := (context contextEntry)\<lparr>sourceText := source\<rparr>\<rparr>))"

definition reparse :: "nat \<Rightarrow> Environment \<Rightarrow> AntlrFacade \<Rightarrow> string \<Rightarrow> AntlrFacade option" where
  "reparse n env s fname =
     (case lookupEntry s fname of
        None \<Rightarrow> Some s
      | Some contextEntry \<Rightarrow> parseGrammar n env s contextEntry)"

definition getContext :: "nat \<Rightarrow> Environment \<Rightarrow> AntlrFacade \<Rightarrow> string \<Rightarrow> string option \<Rightarrow> (AntlrFacade \<times> SourceContext) option" where
  "getContext n env s fname source =
     (case lookupEntry s fname of
        None \<Rightarrow> loadGrammar n env s fname source
      | Some contextEntry \<Rightarrow> Some (s, context contextEntry))"

subsection \<open>pushDependencyFiles\<close>

text \<open>
  The recursion follows the stored dependency paths through the map and checks nothing
  before it descends, so it carries fuel too: one unit for each level of the descent.
\<close>

function pushDependencyFiles :: "nat \<Rightarrow> AntlrFacade \<Rightarrow> ContextEntry \<Rightarrow> SourceContext list \<Rightarrow> SourceContext list option"
  and pushEach :: "nat \<Rightarrow> AntlrFacade \<Rightarrow> string list \<Rightarrow> SourceContext list \<Rightarrow> SourceContext list option"
  where
  "pushDependencyFiles n s entry contexts = pushEach n s (dependencies entry) contexts"
| "pushEach n s [] contexts = Some contexts"
| "pushEach n s (dep # deps) contexts =
     (case lookupEntry s dep of
        None \<Rightarrow> pushEach n s deps contexts
      | Some depEntry \<Rightarrow>
          (case n of
             0 \<Rightarrow> None
           | Suc m \<Rightarrow>
               (case pushDependencyFiles m s depEntry contexts of
                  None \<Rightarrow> None
                | Some contexts' \<Rightarrow> pushEach n s deps (setAdd contexts' (context depEntry)))))"
  by pat_completeness auto
termination
  by (relation "measures
    [\<lambda>x. case x of Inl (n, _) \<Rightarrow> n | Inr (n, _) \<Rightarrow> n,
     \<lambda>x. case x of Inl _ \<Rightarrow> 1 | Inr _ \<Rightarrow> 0,
     \<lambda>x. case x of Inl _ \<Rightarrow> 0 | Inr (n, s, ds, cs) \<Rightarrow> length ds]") auto

subsection \<open>Queries\<close>

definition symbolInfoAtPosition :: "nat \<Rightarrow> Environment \<Rightarrow> AntlrFacade \<Rightarrow> string \<Rightarrow> int \<Rightarrow> int \<Rightarrow> bool \<Rightarrow> (AntlrFacade \<times> ('g, 'o) call list) option" where
  "symbolInfoAtPosition n env s fname column row limitToChildren =
     (case getContext n env s fname None of
        None \<Rightarrow> None
      | Some (s1, ctx) \<Rightarrow> Some (s1, [SymbolAtPosition ctx column row limitToChildren]))"

definition getDiagnostics :: "nat \<Rightarrow> Environment \<Rightarrow> AntlrFacade \<Rightarrow> string \<Rightarrow> (AntlrFacade \<times> ('g, 'o) call list) option" where
  "getDiagnostics n env s fname =
     (case getContext n env s fname None of
        None \<Rightarrow> None
      | Some (s1, ctx) \<Rightarrow> Some (s1, [GetDiagnostics ctx]))"

definition countReferences :: "nat \<Rightarrow> Environment \<Rightarrow> AntlrFacade \<Rightarrow> string \<Rightarrow> string \<Rightarrow> (AntlrFacade \<times> ('g, 'o) call list) option" where
  "countReferences n env s fname symbol =
     (case getContext n env s fname None of
        None \<Rightarrow> None
      | Some (s1, ctx) \<Rightarrow> Some (s1, [GetReferenceCount ctx symbol]))"

text \<open>
  The other queries that resolve the grammar and call one method of its context, in the
  order of the class. \<open>listTopLevelSymbols\<close> passes \<open>!fullList\<close>; \<open>getSymbolOccurrences\<close>
  asks the context's symbol table with \<open>false\<close> and sorts what comes back; \<open>hasErrors\<close>
  and \<open>getContextDetails\<close> read the getters \<open>hasErrors\<close> and \<open>info\<close>.
\<close>

definition infoForSymbol :: "nat \<Rightarrow> Environment \<Rightarrow> AntlrFacade \<Rightarrow> string \<Rightarrow> string \<Rightarrow> (AntlrFacade \<times> ('g, 'o) call list) option" where
  "infoForSymbol n env s fname symbol =
     (case getContext n env s fname None of
        None \<Rightarrow> None
      | Some (s1, ctx) \<Rightarrow> Some (s1, [GetSymbolInfo ctx symbol]))"

definition enclosingSymbolAtPosition :: "nat \<Rightarrow> Environment \<Rightarrow> AntlrFacade \<Rightarrow> string \<Rightarrow> int \<Rightarrow> int \<Rightarrow> bool \<Rightarrow> (AntlrFacade \<times> ('g, 'o) call list) option" where
  "enclosingSymbolAtPosition n env s fname column row ruleScope =
     (case getContext n env s fname None of
        None \<Rightarrow> None
      | Some (s1, ctx) \<Rightarrow> Some (s1, [EnclosingSymbolAtPosition ctx column row ruleScope]))"

definition listTopLevelSymbols :: "nat \<Rightarrow> Environment \<Rightarrow> AntlrFacade \<Rightarrow> string \<Rightarrow> bool \<Rightarrow> (AntlrFacade \<times> ('g, 'o) call list) option" where
  "listTopLevelSymbols n env s fname fullList =
     (case getContext n env s fname None of
        None \<Rightarrow> None
      | Some (s1, ctx) \<Rightarrow> Some (s1, [ListTopLevelSymbols ctx (\<not> fullList)]))"

definition getLexerVocabulary :: "nat \<Rightarrow> Environment \<Rightarrow> AntlrFacade \<Rightarrow> string \<Rightarrow> (AntlrFacade \<times> ('g, 'o) call list) option" where
  "getLexerVocabulary n env s fname =
     (case getContext n env s fname None of
        None \<Rightarrow> None
      | Some (s1, ctx) \<Rightarrow> Some (s1, [GetVocabulary ctx]))"

definition getRuleList :: "nat \<Rightarrow> Environment \<Rightarrow> AntlrFacade \<Rightarrow> string \<Rightarrow> (AntlrFacade \<times> ('g, 'o) call list) option" where
  "getRuleList n env s fname =
     (case getContext n env s fname None of
        None \<Rightarrow> None
      | Some (s1, ctx) \<Rightarrow> Some (s1, [GetRuleList ctx]))"

definition getChannels :: "nat \<Rightarrow> Environment \<Rightarrow> AntlrFacade \<Rightarrow> string \<Rightarrow> (AntlrFacade \<times> ('g, 'o) call list) option" where
  "getChannels n env s fname =
     (case getContext n env s fname None of
        None \<Rightarrow> None
      | Some (s1, ctx) \<Rightarrow> Some (s1, [GetChannels ctx]))"

definition getModes :: "nat \<Rightarrow> Environment \<Rightarrow> AntlrFacade \<Rightarrow> string \<Rightarrow> (AntlrFacade \<times> ('g, 'o) call list) option" where
  "getModes n env s fname =
     (case getContext n env s fname None of
        None \<Rightarrow> None
      | Some (s1, ctx) \<Rightarrow> Some (s1, [GetModes ctx]))"

definition listActions :: "nat \<Rightarrow> Environment \<Rightarrow> AntlrFacade \<Rightarrow> string \<Rightarrow> (AntlrFacade \<times> ('g, 'o) call list) option" where
  "listActions n env s fname =
     (case getContext n env s fname None of
        None \<Rightarrow> None
      | Some (s1, ctx) \<Rightarrow> Some (s1, [ListActions ctx]))"

definition getCodeCompletionCandidates :: "nat \<Rightarrow> Environment \<Rightarrow> AntlrFacade \<Rightarrow> string \<Rightarrow> int \<Rightarrow> int \<Rightarrow> (AntlrFacade \<times> ('g, 'o) call list) option" where
  "getCodeCompletionCandidates n env s fname column row =
     (case getContext n env s fname None of
        None \<Rightarrow> None
      | Some (s1, ctx) \<Rightarrow> Some (s1, [GetCodeCompletionCandidates ctx column row]))"

definition ruleFromPosition :: "nat \<Rightarrow> Environment \<Rightarrow> AntlrFacade \<Rightarrow> string \<Rightarrow> int \<Rightarrow> int \<Rightarrow> (AntlrFacade \<times> ('g, 'o) call list) option" where
  "ruleFromPosition n env s fname column row =
     (case getContext n env s fname None of
        None \<Rightarrow> None
      | Some (s1, ctx) \<Rightarrow> Some (s1, [RuleFromPosition ctx column row]))"

definition getSymbolOccurrences :: "nat \<Rightarrow> Environment \<Rightarrow> AntlrFacade \<Rightarrow> string \<Rightarrow> string \<Rightarrow> (AntlrFacade \<times> ('g, 'o) call list) option" where
  "getSymbolOccurrences n env s fname symbolName =
     (case getContext n env s fname None of
        None \<Rightarrow> None
      | Some (s1, ctx) \<Rightarrow> Some (s1, [GetSymbolOccurrences ctx symbolName False]))"

definition getReferenceGraph :: "nat \<Rightarrow> Environment \<Rightarrow> AntlrFacade \<Rightarrow> string \<Rightarrow> (AntlrFacade \<times> ('g, 'o) call list) option" where
  "getReferenceGraph n env s fname =
     (case getContext n env s fname None of
        None \<Rightarrow> None
      | Some (s1, ctx) \<Rightarrow> Some (s1, [GetReferenceGraph ctx]))"

definition getRRDScript :: "nat \<Rightarrow> Environment \<Rightarrow> AntlrFacade \<Rightarrow> string \<Rightarrow> string \<Rightarrow> (AntlrFacade \<times> ('g, 'o) call list) option" where
  "getRRDScript n env s fname rule =
     (case getContext n env s fname None of
        None \<Rightarrow> None
      | Some (s1, ctx) \<Rightarrow> Some (s1, [GetRRDScript ctx rule]))"

definition getATNGraph :: "nat \<Rightarrow> Environment \<Rightarrow> AntlrFacade \<Rightarrow> string \<Rightarrow> string \<Rightarrow> (AntlrFacade \<times> ('g, 'o) call list) option" where
  "getATNGraph n env s fname rule =
     (case getContext n env s fname None of
        None \<Rightarrow> None
      | Some (s1, ctx) \<Rightarrow> Some (s1, [GetATNGraph ctx rule]))"

definition lexTestInput :: "nat \<Rightarrow> Environment \<Rightarrow> AntlrFacade \<Rightarrow> string \<Rightarrow> string \<Rightarrow> string option \<Rightarrow> (AntlrFacade \<times> ('g, 'o) call list) option" where
  "lexTestInput n env s fname input actionFile =
     (case getContext n env s fname None of
        None \<Rightarrow> None
      | Some (s1, ctx) \<Rightarrow> Some (s1, [LexTestInput ctx input actionFile]))"

definition parseTestInput :: "nat \<Rightarrow> Environment \<Rightarrow> AntlrFacade \<Rightarrow> string \<Rightarrow> string \<Rightarrow> string \<Rightarrow> string option \<Rightarrow> (AntlrFacade \<times> ('g, 'o) call list) option" where
  "parseTestInput n env s fname input startRule actionFile =
     (case getContext n env s fname None of
        None \<Rightarrow> None
      | Some (s1, ctx) \<Rightarrow> Some (s1, [ParseTestInput ctx input startRule actionFile]))"

definition formatGrammar :: "nat \<Rightarrow> Environment \<Rightarrow> AntlrFacade \<Rightarrow> string \<Rightarrow> FormattingOptions \<Rightarrow> int \<Rightarrow> int \<Rightarrow> (AntlrFacade \<times> ('g, 'o) call list) option" where
  "formatGrammar n env s fname options start stop =
     (case getContext n env s fname None of
        None \<Rightarrow> None
      | Some (s1, ctx) \<Rightarrow> Some (s1, [FormatGrammar ctx options start stop]))"

definition hasErrors_facade :: "nat \<Rightarrow> Environment \<Rightarrow> AntlrFacade \<Rightarrow> string \<Rightarrow> (AntlrFacade \<times> ('g, 'o) call list) option" where
  "hasErrors_facade n env s fname =
     (case getContext n env s fname None of
        None \<Rightarrow> None
      | Some (s1, ctx) \<Rightarrow> Some (s1, [HasErrors ctx]))"

definition getContextDetails :: "nat \<Rightarrow> Environment \<Rightarrow> AntlrFacade \<Rightarrow> string \<Rightarrow> (AntlrFacade \<times> ('g, 'o) call list) option" where
  "getContextDetails n env s fname =
     (case getContext n env s fname None of
        None \<Rightarrow> None
      | Some (s1, ctx) \<Rightarrow> Some (s1, [Info ctx]))"

text \<open>\<open>getDependencies\<close> returns the file names of the gathered contexts.\<close>

definition getDependencies :: "nat \<Rightarrow> AntlrFacade \<Rightarrow> string \<Rightarrow> string list option" where
  "getDependencies n s fname =
     (case lookupEntry s fname of
        None \<Rightarrow> Some []
      | Some entry \<Rightarrow>
          (case pushDependencyFiles n s entry [] of
             None \<Rightarrow> None
           | Some deps \<Rightarrow> Some (map fileName deps)))"

text \<open>
  In \<open>generate\<close>, \<open>generateSentence\<close> and \<open>createDebugger\<close> the entry is read with
  \<open>this.sourceContexts.get(fileName)!\<close> right after \<open>getContext\<close>, which has put it in
  the map; the branch for a missing entry is the TypeError that \<open>undefined.dependencies\<close>
  would raise, and it shares \<open>None\<close> with fuel running out.
\<close>

definition generate :: "nat \<Rightarrow> Environment \<Rightarrow> AntlrFacade \<Rightarrow> string \<Rightarrow> 'g \<Rightarrow> (AntlrFacade \<times> ('g, 'o) call list) option" where
  "generate n env s fname options =
     (case getContext n env s fname None of
        None \<Rightarrow> None
      | Some (s1, ctx) \<Rightarrow>
          (case lookupEntry s1 fname of
             None \<Rightarrow> None
           | Some entry \<Rightarrow>
               (case pushDependencyFiles n s1 entry [] of
                  None \<Rightarrow> None
                | Some deps \<Rightarrow> Some (s1, [Generate ctx deps options]))))"

text \<open>The loop of \<open>generateSentence\<close> over the gathered set: the calls made, and whether
  the loop ran to its end (\<open>False\<close> is the early \<open>return\<close>).\<close>

fun sentenceDependencyLoop :: "Environment \<Rightarrow> string \<Rightarrow> SourceContext list \<Rightarrow> ('g, 'o) call list \<times> bool" where
  "sentenceDependencyLoop env basePath [] = ([], True)"
| "sentenceDependencyLoop env basePath (dependency # rest) =
     (if hasErrors env dependency then ([Callback ''[Fix grammar errors first]'' 0], False)
      else (let prepared = (if \<not> isInterpreterDataLoaded env dependency
                         then [SetupInterpreters dependency (path_join env basePath ''.antlr'')]
                         else []);
                (calls, finished) = sentenceDependencyLoop env basePath rest
            in (prepared @ calls, finished)))"

definition generateSentence :: "nat \<Rightarrow> Environment \<Rightarrow> AntlrFacade \<Rightarrow> string \<Rightarrow> string \<Rightarrow> 'o \<Rightarrow> (AntlrFacade \<times> ('g, 'o) call list) option" where
  "generateSentence n env s fname rule options =
     (case getContext n env s fname None of
        None \<Rightarrow> None
      | Some (s1, ctx) \<Rightarrow>
          (case lookupEntry s1 fname of
             None \<Rightarrow> None
           | Some entry \<Rightarrow>
               (case pushDependencyFiles n s1 entry [] of
                  None \<Rightarrow> None
                | Some deps \<Rightarrow>
                    (let (calls, finished) = sentenceDependencyLoop env (path_dirname env fname) deps
                     in if finished then Some (s1, calls @ [GenerateSentence ctx deps rule options])
                        else Some (s1, calls)))))"

text \<open>The loop of \<open>createDebugger\<close>: it returns \<open>undefined\<close> at the first context with
  errors and calls nothing back.\<close>

fun debuggerDependencyLoop :: "Environment \<Rightarrow> string \<Rightarrow> SourceContext list \<Rightarrow> ('g, 'o) call list \<times> bool" where
  "debuggerDependencyLoop env dataDir [] = ([], True)"
| "debuggerDependencyLoop env dataDir (dependency # rest) =
     (if hasErrors env dependency then ([], False)
      else (let prepared = (if \<not> isInterpreterDataLoaded env dependency
                         then [SetupInterpreters dependency dataDir]
                         else []);
                (calls, finished) = debuggerDependencyLoop env dataDir rest
            in (prepared @ calls, finished)))"

definition createDebugger :: "nat \<Rightarrow> Environment \<Rightarrow> AntlrFacade \<Rightarrow> string \<Rightarrow> string \<Rightarrow> string \<Rightarrow> (AntlrFacade \<times> ('g, 'o) call list) option" where
  "createDebugger n env s fname actionFile dataDir =
     (case getContext n env s fname None of
        None \<Rightarrow> None
      | Some (s1, ctx) \<Rightarrow>
          (case lookupEntry s1 fname of
             None \<Rightarrow> None
           | Some entry \<Rightarrow>
               (case pushDependencyFiles n s1 entry (setAdd [] ctx) of
                  None \<Rightarrow> None
                | Some contexts \<Rightarrow>
                    (let (calls, finished) = debuggerDependencyLoop env dataDir contexts
                     in if finished then Some (s1, calls @ [NewGrammarDebugger contexts actionFile])
                        else Some (s1, calls)))))"

subsection \<open>What the properties below speak about\<close>

text \<open>
  \<open>shrinks s s'\<close>: every entry of \<open>s'\<close> is an entry of \<open>s\<close> with the same context,
  dependency list and grammar name, and a reference count that did not grow and did not
  leave the positive numbers.
\<close>

definition shrinks :: "AntlrFacade \<Rightarrow> AntlrFacade \<Rightarrow> bool" where
  "shrinks s s' \<longleftrightarrow>
     (\<forall>k e'. lookupEntry s' k = Some e' \<longrightarrow>
        (\<exists>e. lookupEntry s k = Some e \<and> context e' = context e \<and>
             dependencies e' = dependencies e \<and> grammar e' = grammar e \<and>
             refCount e' \<le> refCount e \<and> (1 \<le> refCount e \<longrightarrow> 1 \<le> refCount e')))"

text \<open>
  \<open>extends key added s s'\<close>: every entry of \<open>s\<close> is still an entry of \<open>s'\<close> with the
  same context and grammar name and a reference count that did not drop; the dependency
  list of \<open>key\<close> has \<open>added\<close> appended and every other list is as it was.
\<close>

definition "extends" :: "string \<Rightarrow> string list \<Rightarrow> AntlrFacade \<Rightarrow> AntlrFacade \<Rightarrow> bool" where
  "extends key added s s' \<longleftrightarrow>
     importDir s' = importDir s \<and>
     (\<forall>k e. lookupEntry s k = Some e \<longrightarrow>
        (\<exists>e'. lookupEntry s' k = Some e' \<and> context e' = context e \<and>
              grammar e' = grammar e \<and> refCount e \<le> refCount e' \<and>
              dependencies e' = (if k = key then dependencies e @ added else dependencies e)))"

text \<open>The text a new context starts with: the caller's, unless it is missing or empty
  (\<open>!source\<close>), and then what can be read from disk.\<close>

definition sourceOrDisk :: "Environment \<Rightarrow> string \<Rightarrow> string option \<Rightarrow> string" where
  "sourceOrDisk env fname source =
     (case source of None \<Rightarrow> readSource env fname
      | Some t \<Rightarrow> if t = [] then readSource env fname else t)"

text \<open>The four candidate paths of \<open>loadDependency\<close> in the order of its four \<open>try\<close>
  blocks, each with the check that guards it, and the first one whose check passes.\<close>

definition importPath :: "Environment \<Rightarrow> AntlrFacade \<Rightarrow> ContextEntry \<Rightarrow> string" where
  "importPath env s contextEntry =
     (if path_isAbsolute env (importDir s) then importDir s
      else path_join env (path_dirname env (grammar contextEntry)) (importDir s))"

definition candidatePaths :: "Environment \<Rightarrow> AntlrFacade \<Rightarrow> ContextEntry \<Rightarrow> string \<Rightarrow> string list" where
  "candidatePaths env s contextEntry depName =
     [path_join env (importPath env s contextEntry) (depName @ ''.g4''),
      path_join env (importPath env s contextEntry) (depName @ ''.g''),
      path_join env (path_dirname env (grammar contextEntry)) (depName @ ''.g4''),
      path_join env (path_dirname env (grammar contextEntry)) (depName @ ''.g'')]"

definition candidates :: "Environment \<Rightarrow> AntlrFacade \<Rightarrow> ContextEntry \<Rightarrow> string \<Rightarrow> (string \<times> bool) list" where
  "candidates env s contextEntry depName =
     zip (candidatePaths env s contextEntry depName)
         (map2 (\<lambda>check p. check p)
            [fs_accessSync env, fs_accessSync env, fs_statSync env, fs_statSync env]
            (candidatePaths env s contextEntry depName))"

definition locateDependency :: "Environment \<Rightarrow> AntlrFacade \<Rightarrow> ContextEntry \<Rightarrow> string \<Rightarrow> string option" where
  "locateDependency env s contextEntry depName =
     map_option fst (find snd (candidates env s contextEntry depName))"

definition resolveAll :: "Environment \<Rightarrow> AntlrFacade \<Rightarrow> ContextEntry \<Rightarrow> string list \<Rightarrow> string list" where
  "resolveAll env s contextEntry names =
     List.map_filter (locateDependency env s contextEntry) names"

text \<open>What \<open>parseGrammar\<close> starts from and what the parse of an entry's text resolves to:
  the state with the entry's dependency list emptied, and the located paths of the
  grammar names that the parse yields.\<close>

definition cleared :: "AntlrFacade \<Rightarrow> ContextEntry \<Rightarrow> AntlrFacade" where
  "cleared s contextEntry =
     modifyEntry s (grammar contextEntry) (\<lambda>e. e\<lparr>dependencies := []\<rparr>)"

definition newDependencies :: "Environment \<Rightarrow> AntlrFacade \<Rightarrow> ContextEntry \<Rightarrow> string list" where
  "newDependencies env s contextEntry =
     resolveAll env s contextEntry (parse env (sourceText (context contextEntry)))"

text \<open>The first candidate that exists on disk, whatever its permissions.\<close>

definition firstExisting :: "Environment \<Rightarrow> AntlrFacade \<Rightarrow> ContextEntry \<Rightarrow> string \<Rightarrow> string option" where
  "firstExisting env s contextEntry depName =
     find (fs_statSync env) (candidatePaths env s contextEntry depName)"

text \<open>
  \<open>liveReferences s d\<close> counts the occurrences of \<open>d\<close> in the dependency lists of the
  entries in the map. \<open>refCountsCover s pending\<close>: every entry's reference count pays
  for the references to it from the map and for the releases of it that are still due,
  and every path in a stored dependency list is itself loaded.
\<close>

definition liveReferences :: "AntlrFacade \<Rightarrow> string \<Rightarrow> nat" where
  "liveReferences s d =
     (\<Sum>k \<in> fmdom' (sourceContexts s). count_list (dependencies (the (lookupEntry s k))) d)"

definition refCountsCover :: "AntlrFacade \<Rightarrow> string multiset \<Rightarrow> bool" where
  "refCountsCover s pending \<longleftrightarrow>
     (\<forall>d \<in> fmdom' (sourceContexts s).
        int (liveReferences s d) + int (count pending d) \<le> refCount (the (lookupEntry s d))) \<and>
     (\<forall>k \<in> fmdom' (sourceContexts s).
        \<forall>d \<in> set (dependencies (the (lookupEntry s k))). d \<in> fmdom' (sourceContexts s))"

text \<open>
  \<open>held s d\<close>: the references to \<open>d\<close> that its count holds beyond those from the
  dependency lists in the map, that is, the references held by clients.
  \<open>dependenciesLoadedBut s X\<close>: every path in a stored dependency list is loaded, or is
  in \<open>X\<close>.
\<close>

definition held :: "AntlrFacade \<Rightarrow> string \<Rightarrow> int" where
  "held s d =
     (case lookupEntry s d of None \<Rightarrow> 0 | Some e \<Rightarrow> refCount e) - int (liveReferences s d)"

definition dependenciesLoadedBut :: "AntlrFacade \<Rightarrow> string set \<Rightarrow> bool" where
  "dependenciesLoadedBut s X \<longleftrightarrow>
     (\<forall>k e d. lookupEntry s k = Some e \<longrightarrow> d \<in> set (dependencies e) \<longrightarrow>
        lookupEntry s d \<noteq> None \<or> d \<in> X)"

text \<open>
  \<open>countsPositive s\<close>: no entry in the map has a count below 1. Inside a load the
  entries being loaded are still at 0 or above: \<open>countsPositiveBut s X\<close> lets the
  entries of \<open>X\<close> be at 0. \<open>listedByOthers s G d\<close> counts the occurrences of \<open>d\<close> in the
  dependency lists of the entries other than \<open>G\<close>.
\<close>

definition countsPositive :: "AntlrFacade \<Rightarrow> bool" where
  "countsPositive s \<longleftrightarrow>
     (\<forall>k \<in> fmdom' (sourceContexts s). 1 \<le> refCount (the (lookupEntry s k)))"

definition countsPositiveBut :: "AntlrFacade \<Rightarrow> string set \<Rightarrow> bool" where
  "countsPositiveBut s X \<longleftrightarrow>
     (\<forall>k e. lookupEntry s k = Some e \<longrightarrow> (if k \<in> X then 0 \<le> refCount e else 1 \<le> refCount e))"

definition listedByOthers :: "AntlrFacade \<Rightarrow> string \<Rightarrow> string \<Rightarrow> nat" where
  "listedByOthers s G d = liveReferences (deleteEntry s G) d"

text \<open>
  The paths that pass one of the two file system checks, and those of them that are not
  in the map. A dependency is only ever loaded from such a path, so on a disk with
  finitely many files the loading comes to an end.
\<close>

definition diskFiles :: "Environment \<Rightarrow> string set" where
  "diskFiles env = {p. fs_accessSync env p \<or> fs_statSync env p}"

definition notLoaded :: "Environment \<Rightarrow> AntlrFacade \<Rightarrow> string set" where
  "notLoaded env s = diskFiles env - fmdom' (sourceContexts s)"

text \<open>
  The stored dependency lists have no cycle among the loaded entries when every loaded
  entry ranks above the loaded paths it lists; \<open>acyclicBelow n s rank\<close> says so with all
  ranks below \<open>n\<close>.
\<close>

definition acyclicBelow :: "nat \<Rightarrow> AntlrFacade \<Rightarrow> (string \<Rightarrow> nat) \<Rightarrow> bool" where
  "acyclicBelow n s rank \<longleftrightarrow>
     (\<forall>k \<in> fmdom' (sourceContexts s). rank k < n \<and>
        (\<forall>d \<in> set (dependencies (the (lookupEntry s k))).
           d \<in> fmdom' (sourceContexts s) \<longrightarrow> rank d < rank k))"

text \<open>
  A depth-first walk along the stored dependency lists: for each listed path that is
  loaded, in list order, first the walk of its own list and then its context. The walk
  visits a context once for every way of reaching it; \<open>foldl setAdd\<close> keeps the first
  visit of each. Like the gathering it is compared with, the walk has one unit of fuel
  for each level of its descent.
\<close>

function depthFirst :: "nat \<Rightarrow> AntlrFacade \<Rightarrow> string list \<Rightarrow> SourceContext list option" where
  "depthFirst n s [] = Some []"
| "depthFirst n s (dep # deps) =
     (case lookupEntry s dep of
        None \<Rightarrow> depthFirst n s deps
      | Some depEntry \<Rightarrow>
          (case n of
             0 \<Rightarrow> None
           | Suc m \<Rightarrow>
               (case depthFirst m s (dependencies depEntry) of
                  None \<Rightarrow> None
                | Some below \<Rightarrow>
                    map_option (\<lambda>rest. below @ [context depEntry] @ rest) (depthFirst n s deps))))"
  by pat_completeness auto
termination
  by (relation "measures [\<lambda>(n, s, ds). n, \<lambda>(n, s, ds). length ds]") auto

text \<open>
  The queries that resolve the grammar and call one method of its context, all at once,
  for one choice of their arguments.
\<close>

record QueryArguments =
  arg_column :: int
  arg_row :: int
  arg_flag :: bool
  arg_symbol :: string
  arg_rule :: string
  arg_input :: string
  arg_actionFile :: "string option"
  arg_formatting :: FormattingOptions
  arg_start :: int
  arg_stop :: int

definition plainQueries :: "nat \<Rightarrow> Environment \<Rightarrow> AntlrFacade \<Rightarrow> string \<Rightarrow> QueryArguments \<Rightarrow> (AntlrFacade \<times> ('g, 'o) call list) option list" where
  "plainQueries n env s fname a =
     [symbolInfoAtPosition n env s fname (arg_column a) (arg_row a) (arg_flag a),
      infoForSymbol n env s fname (arg_symbol a),
      enclosingSymbolAtPosition n env s fname (arg_column a) (arg_row a) (arg_flag a),
      listTopLevelSymbols n env s fname (arg_flag a),
      getLexerVocabulary n env s fname,
      getRuleList n env s fname,
      getChannels n env s fname,
      getModes n env s fname,
      listActions n env s fname,
      getCodeCompletionCandidates n env s fname (arg_column a) (arg_row a),
      getDiagnostics n env s fname,
      ruleFromPosition n env s fname (arg_column a) (arg_row a),
      countReferences n env s fname (arg_symbol a),
      getSymbolOccurrences n env s fname (arg_symbol a),
      getReferenceGraph n env s fname,
      getRRDScript n env s fname (arg_rule a),
      getATNGraph n env s fname (arg_rule a),
      lexTestInput n env s fname (arg_input a) (arg_actionFile a),
      parseTestInput n env s fname (arg_input a) (arg_rule a) (arg_actionFile a),
      formatGrammar n env s fname (arg_formatting a) (arg_start a) (arg_stop a),
      hasErrors_facade n env s fname,
      getContextDetails n env s fname]"

text \<open>The loaded paths that the stored dependency lists lead to from a list of paths,
  and the contexts registered under them.\<close>

inductive reaches :: "AntlrFacade \<Rightarrow> string list \<Rightarrow> string \<Rightarrow> bool" for s :: AntlrFacade where
  direct: "p \<in> set deps \<Longrightarrow> lookupEntry s p = Some e \<Longrightarrow> reaches s deps p"
| via: "d \<in> set deps \<Longrightarrow> lookupEntry s d = Some e \<Longrightarrow> reaches s (dependencies e) p \<Longrightarrow>
        reaches s deps p"

definition dependencyClosure :: "AntlrFacade \<Rightarrow> string list \<Rightarrow> SourceContext set" where
  "dependencyClosure s deps = {context e | p e. reaches s deps p \<and> lookupEntry s p = Some e}"

text \<open>
  \<open>gathers s deps cs cs'\<close>: \<open>cs'\<close> is \<open>cs\<close> with contexts appended so that its
  objects are those of \<open>cs\<close> and of the closure of \<open>deps\<close>, each of them a member of
  one of the two, and no object is listed twice if none was before.
\<close>

definition gathers :: "AntlrFacade \<Rightarrow> string list \<Rightarrow> SourceContext list \<Rightarrow> SourceContext list \<Rightarrow> bool" where
  "gathers s deps cs cs' \<longleftrightarrow>
     ctx_id ` set cs' = ctx_id ` set cs \<union> ctx_id ` dependencyClosure s deps \<and>
     set cs' \<subseteq> set cs \<union> dependencyClosure s deps \<and>
     (\<exists>more. cs' = cs @ more) \<and>
     (distinct (map ctx_id cs) \<longrightarrow> distinct (map ctx_id cs'))"

text \<open>The dependency contexts that a call hands to the SourceContext it is sent to.\<close>

fun forwardedContexts :: "('g, 'o) call \<Rightarrow> SourceContext list" where
  "forwardedContexts (Generate c deps options) = deps"
| "forwardedContexts (GenerateSentence c deps rule options) = deps"
| "forwardedContexts (NewGrammarDebugger contexts actionFile) = contexts"
| "forwardedContexts other = []"

fun isSetupInterpreters :: "('g, 'o) call \<Rightarrow> bool" where
  "isSetupInterpreters (SetupInterpreters c dir) = True"
| "isSetupInterpreters other = False"



subsection \<open>A disk and a parser to run the model on\<close>

text \<open>
  POSIX versions of the three \<open>path\<close> functions, right on paths without \<open>..\<close>, doubled or
  trailing slashes; a disk given as a list of files with their text and the list of
  those that cannot be read; a parser given as a table from text to the grammar names it
  refers to; the files whose contexts have errors.
\<close>

definition posixDirname :: "string \<Rightarrow> string" where
  "posixDirname p =
     (if CHR ''/'' \<notin> set p then ''.''
      else (let d = rev (tl (dropWhile (\<lambda>c. c \<noteq> CHR ''/'') (rev p)))
            in if d = [] then ''/'' else d))"

definition posixJoin :: "string \<Rightarrow> string \<Rightarrow> string" where
  "posixJoin a b = (if a = ''.'' then b else if b = ''.'' then a else a @ ''/'' @ b)"

definition posixIsAbsolute :: "string \<Rightarrow> bool" where
  "posixIsAbsolute p = (case p of [] \<Rightarrow> False | c # _ \<Rightarrow> c = CHR ''/'')"

definition diskEnv :: "(string \<times> string) list \<Rightarrow> string list \<Rightarrow> (string \<times> string list) list \<Rightarrow> string list \<Rightarrow> Environment" where
  "diskEnv files unreadable imports broken =
     \<lparr>fs_accessSync = (\<lambda>p. map_of files p \<noteq> None \<and> p \<notin> set unreadable),
      fs_statSync = (\<lambda>p. map_of files p \<noteq> None),
      fs_readFileSync = (\<lambda>p. if p \<in> set unreadable then None else map_of files p),
      path_dirname = posixDirname,
      path_join = posixJoin,
      path_isAbsolute = posixIsAbsolute,
      parse = (\<lambda>text. case map_of imports text of None \<Rightarrow> [] | Some names \<Rightarrow> names),
      hasErrors = (\<lambda>c. fileName c \<in> set broken),
      isInterpreterDataLoaded = (\<lambda>c. True)\<rparr>"

definition newFacade :: "string \<Rightarrow> AntlrFacade" where
  "newFacade dir = \<lparr>sourceContexts = fmempty, importDir = dir, nextContext = 0\<rparr>"

text \<open>The state a successful \<open>loadGrammar\<close> without source text leaves behind.\<close>

definition afterLoad :: "nat \<Rightarrow> Environment \<Rightarrow> AntlrFacade \<Rightarrow> string \<Rightarrow> AntlrFacade" where
  "afterLoad n env s fname = fst (the (loadGrammar n env s fname None))"

text \<open>
  A directory \<open>d\<close> where \<open>G\<close> imports \<open>A\<close> and \<open>B\<close>, \<open>A\<close> and \<open>H\<close> import \<open>B\<close>, and \<open>S\<close>
  imports itself; a directory \<open>/imp\<close> with a second \<open>B.g4\<close> that exists but cannot be read. The
  context of \<open>d/A.g4\<close> has errors.
\<close>

definition sampleDisk :: "string list \<Rightarrow> Environment" where
  "sampleDisk broken = diskEnv
     [(''d/G.g4'', ''import A, B;''), (''d/A.g4'', ''import B;''), (''d/B.g4'', ''b''),
      (''d/H.g4'', ''import B;''), (''d/S.g4'', ''import S;''), (''/imp/B.g4'', ''x'')]
     [''/imp/B.g4'']
     [(''import A, B;'', [''A'', ''B'']), (''import B;'', [''B'']), (''import S;'', [''S''])]
     broken"

definition sampleEnv :: Environment where
  "sampleEnv = sampleDisk [''d/A.g4'']"

text \<open>The same disk with no context in error.\<close>

definition healthyEnv :: Environment where
  "healthyEnv = sampleDisk []"


text \<open>\<open>d/G.g4\<close> loaded and then edited to import \<open>B\<close> only, not yet parsed again.\<close>

definition editedFacade :: AntlrFacade where
  "editedFacade =
     setText (afterLoad 3 healthyEnv (newFacade ''.'') ''d/G.g4'') ''d/G.g4'' ''import B;''"

text \<open>The entry of \<open>d/G.g4\<close> before its dependencies are resolved, alone in a facade with
  a given import directory.\<close>

definition gEntry :: ContextEntry where
  "gEntry = \<lparr>context = \<lparr>ctx_id = 0, fileName = ''d/G.g4'', sourceText = ''import A, B;''\<rparr>,
             refCount = 0, dependencies = [], grammar = ''d/G.g4''\<rparr>"

definition facadeWithG :: "string \<Rightarrow> AntlrFacade" where
  "facadeWithG dir = setEntry ((newFacade dir)\<lparr>nextContext := 1\<rparr>) ''d/G.g4'' gEntry"

text \<open>
  A directory where \<open>G\<close> imports \<open>X\<close> and \<open>Y\<close>, and a fourth grammar \<open>Z\<close>; \<open>d/G.g4\<close>
  loaded and then edited to import \<open>Y\<close> and \<open>Z\<close>, not yet parsed again.
\<close>

definition renameEnv :: Environment where
  "renameEnv = diskEnv
     [(''d/G.g4'', ''import X, Y;''), (''d/X.g4'', ''x''), (''d/Y.g4'', ''y''), (''d/Z.g4'', ''z'')]
     []
     [(''import X, Y;'', [''X'', ''Y'']), (''import Y, Z;'', [''Y'', ''Z''])]
     []"

definition renamedFacade :: AntlrFacade where
  "renamedFacade =
     setText (afterLoad 5 renameEnv (newFacade ''.'') ''d/G.g4'') ''d/G.g4'' ''import Y, Z;''"

text \<open>A disk with the one file \<open>d/B.g4\<close> and a parser that reads a reference to \<open>B\<close>
  out of the empty text.\<close>

definition implicitEnv :: Environment where
  "implicitEnv = diskEnv [(''d/B.g4'', ''b'')] [] [([], [''B''])] []"

text \<open>Two entries that name each other, each with one reference left.\<close>

definition cycleFacade :: AntlrFacade where
  "cycleFacade =
     setEntry
       (setEntry ((newFacade ''.'')\<lparr>nextContext := 2\<rparr>) ''d/A.g4''
          \<lparr>context = \<lparr>ctx_id = 0, fileName = ''d/A.g4'', sourceText = ''import B;''\<rparr>,
           refCount = 1, dependencies = [''d/B.g4''], grammar = ''d/A.g4''\<rparr>)
       ''d/B.g4''
       \<lparr>context = \<lparr>ctx_id = 1, fileName = ''d/B.g4'', sourceText = ''import A;''\<rparr>,
        refCount = 1, dependencies = [''d/A.g4''], grammar = ''d/B.g4''\<rparr>"

section \<open>Properties\<close>

subsection \<open>The map of entries\<close>

lemma lookupEntry_setEntry [simp]:
  "lookupEntry (setEntry s k e) k' = (if k = k' then Some e else lookupEntry s k')"
  by (simp add: lookupEntry_def setEntry_def)

lemma lookupEntry_deleteEntry [simp]:
  "lookupEntry (deleteEntry s k) k' = (if k = k' then None else lookupEntry s k')"
  by (simp add: lookupEntry_def deleteEntry_def)

lemma lookupEntry_modifyEntry [simp]:
  "lookupEntry (modifyEntry s k f) k' =
     (if k = k' then map_option f (lookupEntry s k) else lookupEntry s k')"
  by (simp add: modifyEntry_def split: option.splits)

lemma lookupEntry_nextContext [simp]:
  "lookupEntry (s\<lparr>nextContext := c\<rparr>) k = lookupEntry s k"
  by (simp add: lookupEntry_def)

lemma frame_setEntry [simp]:
  "importDir (setEntry s k e) = importDir s" "nextContext (setEntry s k e) = nextContext s"
  by (simp_all add: setEntry_def)

lemma frame_deleteEntry [simp]:
  "importDir (deleteEntry s k) = importDir s" "nextContext (deleteEntry s k) = nextContext s"
  by (simp_all add: deleteEntry_def)

lemma frame_modifyEntry [simp]:
  "importDir (modifyEntry s k f) = importDir s" "nextContext (modifyEntry s k f) = nextContext s"
  by (simp_all add: modifyEntry_def split: option.splits)

lemma facade_eqI:
  assumes "\<And>k. lookupEntry s k = lookupEntry t k"
    and "importDir s = importDir t" and "nextContext s = nextContext t"
  shows "s = (t :: AntlrFacade)"
proof -
  have "sourceContexts s = sourceContexts t"
    using assms(1) by (intro fmap_ext) (simp add: lookupEntry_def)
  with assms(2,3) show ?thesis by simp
qed

subsection \<open>Release terminates\<close>

lemma contextCard_deleteEntry_le: "contextCard (deleteEntry s fname) \<le> contextCard s"
  by (simp add: contextCard_def deleteEntry_def card_Diff1_le)

lemma contextCard_deleteEntry_less:
  assumes "lookupEntry s fname = Some e"
  shows "contextCard (deleteEntry s fname) < contextCard s"
proof -
  from assms have mem: "fname \<in> fmdom' (sourceContexts s)"
    by (simp add: lookupEntry_def fmdom'I)
  then have "0 < card (fmdom' (sourceContexts s))"
    by (metis card_gt_0_iff empty_iff finite_fmdom')
  with mem show ?thesis by (simp add: contextCard_def deleteEntry_def)
qed

lemma contextCard_setEntry_same:
  assumes "lookupEntry s fname = Some e"
  shows "contextCard (setEntry s fname e') = contextCard s"
proof -
  from assms have "fname \<in> fmdom' (sourceContexts s)"
    by (simp add: lookupEntry_def fmdom'I)
  then have "insert fname (fmdom' (sourceContexts s)) = fmdom' (sourceContexts s)" by auto
  then show ?thesis by (simp add: contextCard_def setEntry_def)
qed

lemma release_contextCard_partial:
  "internalReleaseGrammar_releaseDependencies_dom (Inl (s, f)) \<Longrightarrow>
     contextCard (internalReleaseGrammar s f) \<le> contextCard s"
  "internalReleaseGrammar_releaseDependencies_dom (Inr (s, ds)) \<Longrightarrow>
     contextCard (releaseDependencies s ds) \<le> contextCard s"
proof (induct s f and s ds rule: internalReleaseGrammar_releaseDependencies.pinduct)
  case (1 s fname)
  show ?case
  proof (cases "lookupEntry s fname")
    case None
    with 1(1) show ?thesis by (simp add: internalReleaseGrammar.psimps)
  next
    case (Some e)
    show ?thesis
    proof (cases "refCount e - 1 = 0")
      case True
      with 1(2)[OF Some True] Some 1(1) contextCard_deleteEntry_le[of s fname] show ?thesis
        by (simp add: internalReleaseGrammar.psimps)
    next
      case False
      with Some 1(1) contextCard_setEntry_same[OF Some] show ?thesis
        by (simp add: internalReleaseGrammar.psimps)
    qed
  qed
next
  case (2 s)
  then show ?case by (simp add: releaseDependencies.psimps)
next
  case (3 s dep deps)
  then show ?case by (simp add: releaseDependencies.psimps)
qed

lemma release_recursion_wellfounded:
  "internalReleaseGrammar_releaseDependencies_dom x"
proof -
  have "All internalReleaseGrammar_releaseDependencies_dom"
  proof (relation "measures
        [\<lambda>x. case x of Inl (s, f) \<Rightarrow> contextCard s | Inr (s, ds) \<Rightarrow> contextCard s,
         \<lambda>x. case x of Inl (s, f) \<Rightarrow> 0 | Inr (s, ds) \<Rightarrow> Suc (length ds)]", goal_cases)
    case 1
    then show ?case by simp
  next
    case (2 s fname e)
    then show ?case using contextCard_deleteEntry_less[of s fname e] by simp
  next
    case (3 s dep deps)
    then show ?case by simp
  next
    case (4 s dep deps)
    then show ?case using release_contextCard_partial(1)[of s dep] by auto
  qed
  then show ?thesis by simp
qed

termination internalReleaseGrammar
  by (simp add: release_recursion_wellfounded)

declare internalReleaseGrammar.simps [simp del]


subsection \<open>Release only shrinks the map\<close>

lemma shrinks_refl: "shrinks s s"
  by (auto simp: shrinks_def)

lemma shrinks_trans:
  assumes "shrinks s t" and "shrinks t u"
  shows "shrinks s u"
  unfolding shrinks_def
proof (intro allI impI)
  fix k e'
  assume "lookupEntry u k = Some e'"
  with assms(2) obtain e1 where e1: "lookupEntry t k = Some e1" "context e' = context e1"
      "dependencies e' = dependencies e1" "grammar e' = grammar e1"
      "refCount e' \<le> refCount e1" "1 \<le> refCount e1 \<longrightarrow> 1 \<le> refCount e'"
    unfolding shrinks_def by blast
  from assms(1) e1(1) obtain e0 where e0: "lookupEntry s k = Some e0" "context e1 = context e0"
      "dependencies e1 = dependencies e0" "grammar e1 = grammar e0"
      "refCount e1 \<le> refCount e0" "1 \<le> refCount e0 \<longrightarrow> 1 \<le> refCount e1"
    unfolding shrinks_def by blast
  from e0 e1 show "\<exists>e. lookupEntry s k = Some e \<and> context e' = context e \<and>
             dependencies e' = dependencies e \<and> grammar e' = grammar e \<and>
             refCount e' \<le> refCount e \<and> (1 \<le> refCount e \<longrightarrow> 1 \<le> refCount e')"
    by auto
qed

lemma shrinks_deleteEntry: "shrinks s (deleteEntry s k)"
  by (auto simp: shrinks_def split: if_splits)

lemma shrinks_decrement:
  assumes "lookupEntry s k = Some e" and "refCount e - 1 \<noteq> 0"
  shows "shrinks s (setEntry s k (e\<lparr>refCount := refCount e - 1\<rparr>))"
  using assms by (auto simp: shrinks_def split: if_splits)

lemma release_shrinks:
  "shrinks s (internalReleaseGrammar s f)"
  "shrinks s (releaseDependencies s ds)"
proof (induct s f and s ds rule: internalReleaseGrammar_releaseDependencies.induct)
  case (1 s fname)
  show ?case
  proof (cases "lookupEntry s fname")
    case None
    then show ?thesis by (simp add: internalReleaseGrammar.simps shrinks_refl)
  next
    case (Some e)
    show ?thesis
    proof (cases "refCount e - 1 = 0")
      case True
      from 1[OF Some True] shrinks_deleteEntry[of s fname]
      have "shrinks s (releaseDependencies (deleteEntry s fname) (dependencies e))"
        by (rule shrinks_trans[rotated])
      with Some True show ?thesis by (simp add: internalReleaseGrammar.simps)
    next
      case False
      with Some shrinks_decrement[OF Some False] show ?thesis
        by (simp add: internalReleaseGrammar.simps)
    qed
  qed
next
  case (2 s)
  show ?case by (simp add: shrinks_refl)
next
  case (3 s dep deps)
  then show ?case by (auto intro: shrinks_trans)
qed

lemma release_frame:
  "importDir (internalReleaseGrammar s f) = importDir s \<and> nextContext (internalReleaseGrammar s f) = nextContext s"
  "importDir (releaseDependencies s ds) = importDir s \<and> nextContext (releaseDependencies s ds) = nextContext s"
  by (induct s f and s ds rule: internalReleaseGrammar_releaseDependencies.induct)
     (auto simp: internalReleaseGrammar.simps split: option.splits)

lemma foldl_releaseGrammar: "foldl releaseGrammar s ds = releaseDependencies s ds"
  by (induct ds arbitrary: s) (simp_all add: releaseGrammar_def)


lemma shrinks_keeps_absent:
  assumes "shrinks s s'" and "lookupEntry s k = None"
  shows "lookupEntry s' k = None"
proof (cases "lookupEntry s' k")
  case None
  then show ?thesis .
next
  case (Some e')
  with assms(1) obtain e where "lookupEntry s k = Some e"
    unfolding shrinks_def by blast
  with assms(2) show ?thesis by simp
qed

lemma release_keeps_absent:
  assumes "lookupEntry s k = None"
  shows "lookupEntry (internalReleaseGrammar s f) k = None"
    and "lookupEntry (releaseDependencies s ds) k = None"
  using assms release_shrinks shrinks_keeps_absent by blast+

lemma release_contextCard:
  "contextCard (internalReleaseGrammar s f) \<le> contextCard s"
  by (rule release_contextCard_partial(1)[OF release_recursion_wellfounded])

subsection \<open>Loading only extends the map\<close>

lemma loadGrammar_loaded:
  assumes "lookupEntry s fname = Some e"
  shows "loadGrammar n env s fname source =
           Some (setEntry s fname (e\<lparr>refCount := refCount e + 1\<rparr>), context e)"
  using assms by (simp add: loadGrammar.simps)

lemma modifyEntry_idle:
  assumes "lookupEntry s k = Some e" and "f e = e"
  shows "modifyEntry s k f = s"
  using assms by (intro facade_eqI) (auto simp: modifyEntry_def)

lemma setEntry_idle:
  assumes "lookupEntry s k = Some e"
  shows "setEntry s k e = s"
  using assms by (intro facade_eqI) auto

lemma extends_refl: "extends key [] s s"
  by (simp add: extends_def)

lemma extends_trans:
  assumes "extends key a s t" and "extends key b t u"
  shows "extends key (a @ b) s u"
  unfolding extends_def
proof (intro conjI allI impI)
  show "importDir u = importDir s" using assms by (simp add: extends_def)
  fix k e
  assume "lookupEntry s k = Some e"
  with assms(1) obtain e1 where e1: "lookupEntry t k = Some e1" "context e1 = context e"
      "grammar e1 = grammar e" "refCount e \<le> refCount e1"
      "dependencies e1 = (if k = key then dependencies e @ a else dependencies e)"
    unfolding extends_def by blast
  from assms(2) e1(1) obtain e2 where e2: "lookupEntry u k = Some e2" "context e2 = context e1"
      "grammar e2 = grammar e1" "refCount e1 \<le> refCount e2"
      "dependencies e2 = (if k = key then dependencies e1 @ b else dependencies e1)"
    unfolding extends_def by blast
  from e1 e2 show "\<exists>e'. lookupEntry u k = Some e' \<and> context e' = context e \<and>
       grammar e' = grammar e \<and> refCount e \<le> refCount e' \<and>
       dependencies e' = (if k = key then dependencies e @ a @ b else dependencies e)"
    by auto
qed

lemma extends_absent_key:
  assumes "extends key a s t" and "lookupEntry s key = None"
  shows "extends k [] s t"
  unfolding extends_def
proof (intro conjI allI impI)
  show "importDir t = importDir s" using assms(1) by (simp add: extends_def)
  fix k' e
  assume found: "lookupEntry s k' = Some e"
  with assms(2) have "k' \<noteq> key" by auto
  with assms(1) found show "\<exists>e'. lookupEntry t k' = Some e' \<and> context e' = context e \<and>
       grammar e' = grammar e \<and> refCount e \<le> refCount e' \<and>
       dependencies e' = (if k' = k then dependencies e @ [] else dependencies e)"
    unfolding extends_def by fastforce
qed

lemma extends_Nil_iff:
  "extends key [] s t \<longleftrightarrow>
     importDir t = importDir s \<and>
     (\<forall>k e. lookupEntry s k = Some e \<longrightarrow>
        (\<exists>e'. lookupEntry t k = Some e' \<and> context e' = context e \<and>
              grammar e' = grammar e \<and> refCount e \<le> refCount e' \<and>
              dependencies e' = dependencies e))"
  by (simp add: extends_def cong: if_cong)

lemma extends_any_key:
  assumes "extends key [] s t"
  shows "extends k [] s t"
  using assms by (simp add: extends_Nil_iff)

lemma extends_setEntry_new:
  assumes "lookupEntry s k = None"
  shows "extends key [] s ((setEntry s k e)\<lparr>nextContext := c\<rparr>)"
  using assms by (auto simp: extends_def setEntry_def lookupEntry_def)

lemma extends_increment:
  "extends key [] s (modifyEntry s k (\<lambda>e. e\<lparr>refCount := refCount e + 1\<rparr>))"
  by (auto simp: extends_def)

lemma extends_setEntry_increment:
  assumes "lookupEntry s k = Some e"
  shows "extends key [] s (setEntry s k (e\<lparr>refCount := refCount e + 1\<rparr>))"
  using assms by (auto simp: extends_def)

lemma extends_pushDependency:
  "extends (grammar ce) [p] s (pushDependency s ce p)"
  by (auto simp: extends_def pushDependency_def)

lemma locateDependency_unfold:
  "locateDependency env s ce depName =
     (let basePath = path_dirname env (grammar ce);
          fullPath = (if path_isAbsolute env (importDir s) then importDir s
                      else path_join env basePath (importDir s))
      in if fs_accessSync env (path_join env fullPath (depName @ ''.g4''))
         then Some (path_join env fullPath (depName @ ''.g4''))
         else if fs_accessSync env (path_join env fullPath (depName @ ''.g''))
         then Some (path_join env fullPath (depName @ ''.g''))
         else if fs_statSync env (path_join env basePath (depName @ ''.g4''))
         then Some (path_join env basePath (depName @ ''.g4''))
         else if fs_statSync env (path_join env basePath (depName @ ''.g''))
         then Some (path_join env basePath (depName @ ''.g''))
         else None)"
  by (simp add: locateDependency_def candidates_def candidatePaths_def importPath_def Let_def)

lemma loadDependency_locate:
  "loadDependency n env s ce depName =
     (case locateDependency env s ce depName of
        None \<Rightarrow> Some (s, None)
      | Some depPath \<Rightarrow> withContext (loadGrammar n env (pushDependency s ce depPath) depPath None))"
  by (simp add: loadDependency.simps locateDependency_unfold Let_def)

lemma candidates_cong:
  "importDir s' = importDir s \<Longrightarrow> grammar ce' = grammar ce \<Longrightarrow>
     candidates env s' ce' d = candidates env s ce d"
  unfolding candidates_def candidatePaths_def importPath_def by simp

lemma locateDependency_cong:
  "importDir s' = importDir s \<Longrightarrow> grammar ce' = grammar ce \<Longrightarrow>
     locateDependency env s' ce' d = locateDependency env s ce d"
proof -
  assume "importDir s' = importDir s" and "grammar ce' = grammar ce"
  then have "candidates env s' ce' d = candidates env s ce d" by (rule candidates_cong)
  then show ?thesis unfolding locateDependency_def by (rule arg_cong)
qed

lemma locateDependency_importDir:
  "importDir s' = importDir s \<Longrightarrow> locateDependency env s' ce d = locateDependency env s ce d"
  by (rule locateDependency_cong) simp_all

lemma resolveAll_importDir:
  "importDir s' = importDir s \<Longrightarrow> resolveAll env s' ce names = resolveAll env s ce names"
proof -
  assume "importDir s' = importDir s"
  then have "locateDependency env s' ce = locateDependency env s ce"
    by (intro ext) (rule locateDependency_importDir)
  then show ?thesis by (simp add: resolveAll_def)
qed

lemma resolveAll_Cons:
  "resolveAll env s ce (d # ds) =
     (case locateDependency env s ce d of None \<Rightarrow> [] | Some p \<Rightarrow> [p]) @ resolveAll env s ce ds"
  by (simp add: resolveAll_def split: option.splits)

lemma loadDependency_extends:
  assumes P1: "\<And>s f src s' c. loadGrammar n env s f src = Some (s', c) \<Longrightarrow> extends f [] s s'"
    and "loadDependency n env s ce d = Some (s', r)"
  shows "extends (grammar ce) (case locateDependency env s ce d of None \<Rightarrow> [] | Some p \<Rightarrow> [p]) s s'"
proof (cases "locateDependency env s ce d")
  case None
  with assms(2) show ?thesis by (simp add: loadDependency_locate extends_refl)
next
  case (Some p)
  with assms(2) obtain c where "loadGrammar n env (pushDependency s ce p) p None = Some (s', c)"
    by (auto simp: loadDependency_locate withContext_def split: option.splits)
  from P1[OF this] have "extends (grammar ce) [] (pushDependency s ce p) s'"
    by (rule extends_any_key)
  with extends_pushDependency[of ce p s] have "extends (grammar ce) ([p] @ []) s s'"
    by (rule extends_trans)
  with Some show ?thesis by simp
qed

lemma loadNewDependencies_extends:
  assumes P1: "\<And>s f src s' c. loadGrammar n env s f src = Some (s', c) \<Longrightarrow> extends f [] s s'"
    and "loadNewDependencies n env s ce names = Some s'"
  shows "extends (grammar ce) (resolveAll env s ce names) s s'"
  using assms(2)
proof (induct names arbitrary: s)
  case Nil
  then show ?case by (simp add: resolveAll_def extends_refl)
next
  case (Cons d ds)
  from Cons.prems obtain s1 r where
    step: "loadDependency n env s ce d = Some (s1, r)" and
    rest: "loadNewDependencies n env s1 ce ds = Some s'"
    by (auto split: option.splits)
  from loadDependency_extends[OF P1 step]
  have e1: "extends (grammar ce) (case locateDependency env s ce d of None \<Rightarrow> [] | Some p \<Rightarrow> [p]) s s1" .
  then have dir: "importDir s1 = importDir s" by (simp add: extends_def)
  from Cons.hyps[OF rest] have "extends (grammar ce) (resolveAll env s1 ce ds) s1 s'" .
  then have "extends (grammar ce) (resolveAll env s ce ds) s1 s'"
    by (simp add: resolveAll_importDir[OF dir])
  with e1 show ?case unfolding resolveAll_Cons by (rule extends_trans)
qed

lemma parseGrammar_fresh:
  assumes "lookupEntry s (grammar ce) = Some ce" and "dependencies ce = []"
  shows "parseGrammar n env s ce =
           loadNewDependencies n env s ce (parse env (sourceText (context ce)))"
proof -
  have "modifyEntry s (grammar ce) (\<lambda>e. e\<lparr>dependencies := []\<rparr>) = s"
    using assms by (intro modifyEntry_idle[where e=ce]) auto
  then show ?thesis
    using assms(2) by (simp add: parseGrammar.simps Let_def split: option.splits)
qed

lemma loadGrammar_extends:
  "loadGrammar n env s f src = Some (s', c) \<Longrightarrow> extends k [] s s'"
proof (induct n arbitrary: s f src s' c k)
  case 0
  then show ?case
    by (auto simp: loadGrammar.simps extends_setEntry_increment split: option.splits)
next
  case (Suc m)
  show ?case
  proof (cases "lookupEntry s f")
    case (Some e)
    with Suc.prems show ?thesis
      by (auto simp: loadGrammar.simps extends_setEntry_increment)
  next
    case None
    define content where "content = (case src of None \<Rightarrow> readSource env f
                            | Some t \<Rightarrow> if t = [] then readSource env f else t)"
    define ce where "ce = \<lparr>context = \<lparr>ctx_id = nextContext s, fileName = f, sourceText = content\<rparr>,
                             refCount = 0, dependencies = [], grammar = f\<rparr>"
    define s1 where "s1 = (setEntry s f ce)\<lparr>nextContext := Suc (nextContext s)\<rparr>"
    from Suc.prems None obtain s2 where
      p: "parseGrammar m env s1 ce = Some s2" and
      s': "s' = modifyEntry s2 f (\<lambda>e. e\<lparr>refCount := refCount e + 1\<rparr>)"
      by (auto simp: loadGrammar.simps Let_def content_def ce_def s1_def split: option.splits)
    have in1: "lookupEntry s1 (grammar ce) = Some ce" by (simp add: s1_def ce_def)
    have "dependencies ce = []" by (simp add: ce_def)
    from p parseGrammar_fresh[OF in1 this]
    have "loadNewDependencies m env s1 ce (parse env (sourceText (context ce))) = Some s2" by simp
    from loadNewDependencies_extends[OF _ this] Suc.hyps
    have "extends (grammar ce) (resolveAll env s1 ce (parse env (sourceText (context ce)))) s1 s2"
      by blast
    moreover have "extends (grammar ce) [] s s1"
      unfolding s1_def by (rule extends_setEntry_new[OF None])
    ultimately have "extends (grammar ce) ([] @ resolveAll env s1 ce (parse env (sourceText (context ce)))) s s2"
      by (rule extends_trans[rotated])
    moreover have "lookupEntry s (grammar ce) = None" using None by (simp add: ce_def)
    ultimately have "extends k [] s s2" by (rule extends_absent_key)
    moreover have "extends k [] s2 s'" unfolding s' by (rule extends_increment)
    ultimately have "extends k ([] @ []) s s'" by (rule extends_trans)
    then show ?thesis by simp
  qed
qed


lemma loadNewDependencies_extends_all:
  assumes "loadNewDependencies n env s ce names = Some s'"
  shows "extends (grammar ce) (resolveAll env s ce names) s s'"
  using loadGrammar_extends assms by (rule loadNewDependencies_extends)

lemma locateDependency_grammar:
  "grammar ce' = grammar ce \<Longrightarrow> locateDependency env s ce' d = locateDependency env s ce d"
  by (rule locateDependency_cong) simp_all

lemma resolveAll_cong:
  assumes "importDir s' = importDir s" and "grammar ce' = grammar ce"
  shows "resolveAll env s' ce' names = resolveAll env s ce names"
proof -
  have "locateDependency env s' ce' = locateDependency env s ce"
    using assms by (intro ext) (rule locateDependency_cong)
  then show ?thesis by (simp add: resolveAll_def)
qed

lemma loadGrammar_fresh_result:
  assumes None: "lookupEntry s f = None"
    and load: "loadGrammar n env s f src = Some (s', c)"
  shows "c = \<lparr>ctx_id = nextContext s, fileName = f, sourceText = sourceOrDisk env f src\<rparr> \<and>
         (\<exists>e'. lookupEntry s' f = Some e' \<and> context e' = c \<and> grammar e' = f \<and>
               1 \<le> refCount e' \<and>
               dependencies e' = resolveAll env s e' (parse env (sourceOrDisk env f src)))"
proof (cases n)
  case 0
  with None load show ?thesis by (simp add: loadGrammar.simps)
next
  case (Suc m)
  define ce where "ce = \<lparr>context = \<lparr>ctx_id = nextContext s, fileName = f,
                                       sourceText = sourceOrDisk env f src\<rparr>,
                           refCount = 0, dependencies = [], grammar = f\<rparr>"
  define s1 where "s1 = (setEntry s f ce)\<lparr>nextContext := Suc (nextContext s)\<rparr>"
  from load None Suc obtain s2 where
    p: "parseGrammar m env s1 ce = Some s2" and
    s': "s' = modifyEntry s2 f (\<lambda>e. e\<lparr>refCount := refCount e + 1\<rparr>)" and
    c: "c = context ce"
    by (auto simp: loadGrammar.simps Let_def sourceOrDisk_def ce_def s1_def split: option.splits)
  have in1: "lookupEntry s1 (grammar ce) = Some ce" by (simp add: s1_def ce_def)
  have "dependencies ce = []" by (simp add: ce_def)
  from p parseGrammar_fresh[OF in1 this]
  have "loadNewDependencies m env s1 ce (parse env (sourceText (context ce))) = Some s2" by simp
  from loadNewDependencies_extends_all[OF this] in1
  obtain e2 where e2: "lookupEntry s2 (grammar ce) = Some e2" "context e2 = context ce"
    "grammar e2 = grammar ce" "refCount ce \<le> refCount e2"
    "dependencies e2 = dependencies ce @ resolveAll env s1 ce (parse env (sourceText (context ce)))"
    unfolding extends_def by fastforce
  have "importDir s1 = importDir s" by (simp add: s1_def setEntry_def)
  then have "resolveAll env s1 ce = resolveAll env s (e2\<lparr>refCount := refCount e2 + 1\<rparr>)"
    using e2(3) by (intro ext resolveAll_cong) simp_all
  with e2 s' c show ?thesis by (simp add: ce_def)
qed

lemma length_candidates: "length (candidates env s ce d) = 4"
  by (simp add: candidates_def candidatePaths_def)

lemma pushDependency_lookup:
  "lookupEntry (pushDependency s ce p) k =
     (if k = grammar ce
      then map_option (\<lambda>e. e\<lparr>dependencies := dependencies e @ [p]\<rparr>) (lookupEntry s k)
      else lookupEntry s k)"
  by (auto simp: pushDependency_def)

lemma readSource_unreadable:
  "\<not> fs_statSync env fname \<or> fs_readFileSync env fname = None \<Longrightarrow> readSource env fname = []"
  by (auto simp: readSource_def)

subsection \<open>Gathering dependency contexts\<close>

lemma reaches_Nil: "\<not> reaches s [] p"
  by (auto elim: reaches.cases)

lemma reaches_mono:
  assumes "reaches s deps p" and "set deps \<subseteq> set deps'"
  shows "reaches s deps' p"
  using assms by (induct arbitrary: deps' rule: reaches.induct) (auto intro: reaches.intros)

lemma reaches_Cons:
  "reaches s (d # ds) p \<longleftrightarrow>
     (\<exists>e. lookupEntry s d = Some e \<and> (p = d \<or> reaches s (dependencies e) p)) \<or> reaches s ds p"
proof
  assume "reaches s (d # ds) p"
  then show "(\<exists>e. lookupEntry s d = Some e \<and> (p = d \<or> reaches s (dependencies e) p)) \<or> reaches s ds p"
  proof (cases rule: reaches.cases)
    case (direct e)
    then show ?thesis by (auto intro: reaches.direct)
  next
    case (via d' e)
    then show ?thesis by (auto intro: reaches.via)
  qed
next
  assume "(\<exists>e. lookupEntry s d = Some e \<and> (p = d \<or> reaches s (dependencies e) p)) \<or> reaches s ds p"
  then show "reaches s (d # ds) p"
  proof (elim disjE exE conjE)
    fix e assume "lookupEntry s d = Some e" "p = d"
    then show ?thesis by (auto intro: reaches.direct)
  next
    fix e assume "lookupEntry s d = Some e" "reaches s (dependencies e) p"
    then show ?thesis by (auto intro: reaches.via[of d])
  next
    assume "reaches s ds p"
    then show ?thesis by (rule reaches_mono) auto
  qed
qed

lemma reaches_loaded: "reaches s deps p \<Longrightarrow> \<exists>e. lookupEntry s p = Some e"
  by (induct rule: reaches.induct) auto

lemma dependencyClosure_Nil: "dependencyClosure s [] = {}"
  by (simp add: dependencyClosure_def reaches_Nil)

lemma dependencyClosure_Cons:
  "dependencyClosure s (d # ds) =
     (case lookupEntry s d of
        None \<Rightarrow> {}
      | Some e \<Rightarrow> insert (context e) (dependencyClosure s (dependencies e))) \<union>
     dependencyClosure s ds"
  unfolding dependencyClosure_def reaches_Cons
  by (cases "lookupEntry s d") auto

lemma setAdd_set: "set (setAdd cs c) \<subseteq> insert c (set cs)"
  by (auto simp: setAdd_def)

lemma setAdd_ids: "ctx_id ` set (setAdd cs c) = insert (ctx_id c) (ctx_id ` set cs)"
  by (auto simp: setAdd_def)

lemma setAdd_prefix: "\<exists>more. setAdd cs c = cs @ more"
  by (simp add: setAdd_def)

lemma setAdd_distinct: "distinct (map ctx_id cs) \<Longrightarrow> distinct (map ctx_id (setAdd cs c))"
  by (auto simp: setAdd_def)

lemma gathers_Nil: "gathers s [] cs cs"
  by (simp add: gathers_def dependencyClosure_Nil)

lemma gathers_skip:
  assumes "lookupEntry s d = None" and "gathers s ds cs cs'"
  shows "gathers s (d # ds) cs cs'"
  using assms by (simp add: gathers_def dependencyClosure_Cons)

lemma gathers_step:
  assumes e: "lookupEntry s d = Some e"
    and inner: "gathers s (dependencies e) cs cs1"
    and rest: "gathers s ds (setAdd cs1 (context e)) cs'"
  shows "gathers s (d # ds) cs cs'"
proof -
  from inner have i: "ctx_id ` set cs1 = ctx_id ` set cs \<union> ctx_id ` dependencyClosure s (dependencies e)"
    "set cs1 \<subseteq> set cs \<union> dependencyClosure s (dependencies e)"
    "\<exists>more. cs1 = cs @ more" "distinct (map ctx_id cs) \<longrightarrow> distinct (map ctx_id cs1)"
    by (simp_all add: gathers_def)
  from rest have r: "ctx_id ` set cs' = ctx_id ` set (setAdd cs1 (context e)) \<union> ctx_id ` dependencyClosure s ds"
    "set cs' \<subseteq> set (setAdd cs1 (context e)) \<union> dependencyClosure s ds"
    "\<exists>more. cs' = setAdd cs1 (context e) @ more"
    "distinct (map ctx_id (setAdd cs1 (context e))) \<longrightarrow> distinct (map ctx_id cs')"
    by (simp_all add: gathers_def)
  have cl: "dependencyClosure s (d # ds) =
      insert (context e) (dependencyClosure s (dependencies e)) \<union> dependencyClosure s ds"
    using e by (simp add: dependencyClosure_Cons)
  have "ctx_id ` set cs' = ctx_id ` set cs \<union> ctx_id ` dependencyClosure s (d # ds)"
    unfolding cl r(1) setAdd_ids i(1) by auto
  moreover have "set cs' \<subseteq> set cs \<union> dependencyClosure s (d # ds)"
    unfolding cl using r(2) i(2) setAdd_set[of cs1 "context e"] by blast
  moreover have "\<exists>more. cs' = cs @ more"
    using i(3) r(3) setAdd_prefix[of cs1 "context e"] by auto
  moreover have "distinct (map ctx_id cs) \<longrightarrow> distinct (map ctx_id cs')"
    using i(4) r(4) setAdd_distinct by blast
  ultimately show ?thesis by (simp add: gathers_def)
qed

lemma push_gathers:
  "pushDependencyFiles n s entry cs = Some cs' \<Longrightarrow> gathers s (dependencies entry) cs cs'"
  "pushEach n s deps cs = Some cs' \<Longrightarrow> gathers s deps cs cs'"
proof (induct n s entry cs and n s deps cs arbitrary: cs' and cs'
    rule: pushDependencyFiles_pushEach.induct)
  case (1 n s entry contexts)
  then show ?case by simp
next
  case (2 n s contexts)
  then show ?case by (simp add: gathers_Nil)
next
  case (3 n s dep deps contexts)
  show ?case
  proof (cases "lookupEntry s dep")
    case None
    with 3(1)[OF None] 3(4) show ?thesis by (simp add: gathers_skip)
  next
    case (Some depEntry)
    with 3(4) obtain m cs1 where
      n: "n = Suc m" and
      inner: "pushDependencyFiles m s depEntry contexts = Some cs1" and
      rest: "pushEach n s deps (setAdd cs1 (context depEntry)) = Some cs'"
      by (auto split: nat.splits option.splits)
    from 3(2)[OF Some n inner] have "gathers s (dependencies depEntry) contexts cs1" .
    moreover from 3(3)[OF Some n inner rest] have "gathers s deps (setAdd cs1 (context depEntry)) cs'" .
    ultimately show ?thesis using Some by (intro gathers_step)
  qed
qed

lemma push_returns:
  assumes acyclic: "\<And>k e d. lookupEntry s k = Some e \<Longrightarrow> d \<in> set (dependencies e) \<Longrightarrow>
                      lookupEntry s d \<noteq> None \<Longrightarrow> rank d < (rank k :: nat)"
  shows "(\<forall>d \<in> set deps. lookupEntry s d \<noteq> None \<longrightarrow> rank d < n) \<Longrightarrow> pushEach n s deps cs \<noteq> None"
proof (induct n arbitrary: deps cs)
  case 0
  then have "\<forall>d \<in> set deps. lookupEntry s d = None" by auto
  then show ?case by (induct deps arbitrary: cs) auto
next
  case (Suc m)
  from Suc.prems show ?case
  proof (induct deps arbitrary: cs)
    case Nil
    then show ?case by simp
  next
    case (Cons d ds)
    show ?case
    proof (cases "lookupEntry s d")
      case None
      from Cons.prems have "\<forall>d' \<in> set ds. lookupEntry s d' \<noteq> None \<longrightarrow> rank d' < Suc m" by simp
      then have "pushEach (Suc m) s ds cs \<noteq> None" by (rule Cons.hyps)
      with None show ?thesis by simp
    next
      case (Some e)
      with Cons.prems have "rank d < Suc m" by auto
      with acyclic[OF Some] have "\<forall>d' \<in> set (dependencies e). lookupEntry s d' \<noteq> None \<longrightarrow> rank d' < m"
        by fastforce
      then have "pushEach m s (dependencies e) cs \<noteq> None" by (rule Suc.hyps)
      then obtain cs1 where inner: "pushEach m s (dependencies e) cs = Some cs1" by auto
      from Cons.prems have "\<forall>d' \<in> set ds. lookupEntry s d' \<noteq> None \<longrightarrow> rank d' < Suc m" by simp
      then have "pushEach (Suc m) s ds (setAdd cs1 (context e)) \<noteq> None" by (rule Cons.hyps)
      with Some inner show ?thesis by simp
    qed
  qed
qed

subsection \<open>The loops over the gathered contexts\<close>




lemma debuggerDependencyLoop_clean:
  assumes "\<forall>d \<in> set deps. \<not> hasErrors env d"
  shows "snd (debuggerDependencyLoop env dataDir deps :: ('g, 'o) call list \<times> bool) \<and>
         (\<forall>c \<in> set (fst (debuggerDependencyLoop env dataDir deps :: ('g, 'o) call list \<times> bool)).
            isSetupInterpreters c)"
  using assms by (induct deps) (auto split: prod.splits)

lemma afterLoad_eq:
  assumes "map_option snd (loadGrammar n env s f None) = Some c"
  shows "loadGrammar n env s f None = Some (afterLoad n env s f, c)"
  using assms by (cases "loadGrammar n env s f None") (auto simp: afterLoad_def)

lemma getContext_absent:
  "lookupEntry s f = None \<Longrightarrow> getContext n env s f source = loadGrammar n env s f source"
  by (simp add: getContext_def)

lemma getContext_registers:
  assumes "getContext n env s fname source = Some (s1, ctx)"
  shows "\<exists>entry. lookupEntry s1 fname = Some entry \<and> context entry = ctx"
proof (cases "lookupEntry s fname")
  case None
  with assms have "loadGrammar n env s fname source = Some (s1, ctx)"
    by (simp add: getContext_def)
  from loadGrammar_fresh_result[OF None this] show ?thesis by blast
next
  case (Some e)
  with assms show ?thesis by (auto simp: getContext_def)
qed

subsection \<open>Reference counts under release\<close>


lemma dom_lookupEntry: "k \<in> fmdom' (sourceContexts s) \<longleftrightarrow> (\<exists>e. lookupEntry s k = Some e)"
  by (simp add: lookupEntry_def fmlookup_dom'_iff)

lemma liveReferences_deleteEntry:
  assumes "lookupEntry s f = Some e"
  shows "liveReferences s d = liveReferences (deleteEntry s f) d + count_list (dependencies e) d"
proof -
  let ?g = "\<lambda>k. count_list (dependencies (the (lookupEntry s k))) d"
  have mem: "f \<in> fmdom' (sourceContexts s)" using assms by (simp add: dom_lookupEntry)
  have "liveReferences s d = ?g f + sum ?g (fmdom' (sourceContexts s) - {f})"
    unfolding liveReferences_def by (rule sum.remove[OF finite_fmdom' mem])
  moreover have "sum ?g (fmdom' (sourceContexts s) - {f}) = liveReferences (deleteEntry s f) d"
    unfolding liveReferences_def by (rule sum.cong) (auto simp: deleteEntry_def lookupEntry_def)
  ultimately show ?thesis using assms by simp
qed

lemma liveReferences_setEntry:
  assumes "lookupEntry s f = Some e" and "dependencies e' = dependencies e"
  shows "liveReferences (setEntry s f e') d = liveReferences s d"
proof -
  have "f \<in> fmdom' (sourceContexts s)" using assms(1) by (simp add: dom_lookupEntry)
  then have dom: "fmdom' (sourceContexts (setEntry s f e')) = fmdom' (sourceContexts s)"
    by (auto simp: setEntry_def)
  show ?thesis unfolding liveReferences_def dom
    by (rule sum.cong) (use assms in \<open>auto simp: lookupEntry_def setEntry_def\<close>)
qed

lemma liveReferences_member:
  assumes "lookupEntry s k = Some e"
  shows "count_list (dependencies e) d \<le> liveReferences s d"
proof -
  let ?g = "\<lambda>k. count_list (dependencies (the (lookupEntry s k))) d"
  have "k \<in> fmdom' (sourceContexts s)" using assms by (simp add: dom_lookupEntry)
  then have "?g k \<le> sum ?g (fmdom' (sourceContexts s))"
    by (intro member_le_sum) simp_all
  with assms show ?thesis by (simp add: liveReferences_def)
qed

lemma refCountsCover_iff:
  "refCountsCover s pending \<longleftrightarrow>
     (\<forall>d e. lookupEntry s d = Some e \<longrightarrow>
        int (liveReferences s d) + int (count pending d) \<le> refCount e) \<and>
     (\<forall>k e d. lookupEntry s k = Some e \<longrightarrow> d \<in> set (dependencies e) \<longrightarrow>
        (\<exists>ed. lookupEntry s d = Some ed))"
  unfolding refCountsCover_def dom_lookupEntry Ball_def
  by (intro arg_cong2[where f="(\<and>)"]) (auto; fastforce)+

lemma release_cover:
  "refCountsCover s (add_mset f pending) \<Longrightarrow> refCountsCover (internalReleaseGrammar s f) pending"
  "refCountsCover s (pending + mset ds) \<Longrightarrow> refCountsCover (releaseDependencies s ds) pending"
proof (induct s f and s ds arbitrary: pending and pending
    rule: internalReleaseGrammar_releaseDependencies.induct)
  case (1 s fname)
  note cover = "1.prems"[unfolded refCountsCover_iff]
  show ?case
  proof (cases "lookupEntry s fname")
    case None
    have "refCountsCover s pending"
      unfolding refCountsCover_iff
    proof (intro conjI allI impI)
      fix d e assume "lookupEntry s d = Some e"
      with cover have "int (liveReferences s d) + int (count (add_mset fname pending) d) \<le> refCount e"
        by blast
      then show "int (liveReferences s d) + int (count pending d) \<le> refCount e" by (simp split: if_splits)
    next
      fix k e d assume "lookupEntry s k = Some e" "d \<in> set (dependencies e)"
      with cover show "\<exists>ed. lookupEntry s d = Some ed" by blast
    qed
    with None show ?thesis by (simp add: internalReleaseGrammar.simps)
  next
    case (Some e)
    from cover Some have own: "int (liveReferences s fname) + int (count pending fname) + 1 \<le> refCount e"
      by fastforce
    show ?thesis
    proof (cases "refCount e - 1 = 0")
      case True
      with own have unreferenced: "liveReferences s fname = 0" by simp
      have noref: "fname \<notin> set (dependencies ek)" if "lookupEntry s k = Some ek" for k ek
      proof -
        from liveReferences_member[OF that, of fname] unreferenced
        have "count_list (dependencies ek) fname = 0" by simp
        then show ?thesis by (simp add: count_list_0_iff)
      qed
      have "refCountsCover (deleteEntry s fname) (pending + mset (dependencies e))"
        unfolding refCountsCover_iff
      proof (intro conjI allI impI)
        fix d ed assume "lookupEntry (deleteEntry s fname) d = Some ed"
        then have d: "d \<noteq> fname" "lookupEntry s d = Some ed" by (auto split: if_splits)
        with cover have "int (liveReferences s d) + int (count (add_mset fname pending) d) \<le> refCount ed"
          by blast
        with d(1) liveReferences_deleteEntry[OF Some, of d]
        show "int (liveReferences (deleteEntry s fname) d) +
                int (count (pending + mset (dependencies e)) d) \<le> refCount ed"
          by (simp add: count_mset)
      next
        fix k ek d assume "lookupEntry (deleteEntry s fname) k = Some ek" "d \<in> set (dependencies ek)"
        then have k: "lookupEntry s k = Some ek" and dk: "d \<in> set (dependencies ek)"
          by (auto split: if_splits)
        from noref[OF k] dk have "d \<noteq> fname" by auto
        moreover from cover k dk obtain ed where "lookupEntry s d = Some ed" by blast
        ultimately show "\<exists>ed. lookupEntry (deleteEntry s fname) d = Some ed" by simp
      qed
      from "1.hyps"[OF Some True this] Some True show ?thesis
        by (simp add: internalReleaseGrammar.simps)
    next
      case False
      let ?e' = "e\<lparr>refCount := refCount e - 1\<rparr>"
      have live: "liveReferences (setEntry s fname ?e') d = liveReferences s d" for d
        by (rule liveReferences_setEntry[OF Some]) simp
      have "refCountsCover (setEntry s fname ?e') pending"
        unfolding refCountsCover_iff live
      proof (intro conjI allI impI)
        fix d ed assume found: "lookupEntry (setEntry s fname ?e') d = Some ed"
        show "int (liveReferences s d) + int (count pending d) \<le> refCount ed"
        proof (cases "d = fname")
          case True
          with found own show ?thesis by auto
        next
          case False
          with found have "lookupEntry s d = Some ed" by simp
          with cover have "int (liveReferences s d) + int (count (add_mset fname pending) d) \<le> refCount ed"
            by blast
          with False show ?thesis by simp
        qed
      next
        fix k ek d assume "lookupEntry (setEntry s fname ?e') k = Some ek" "d \<in> set (dependencies ek)"
        then have "\<exists>ek'. lookupEntry s k = Some ek' \<and> d \<in> set (dependencies ek')"
          using Some by (auto split: if_splits)
        with cover obtain ed where "lookupEntry s d = Some ed" by blast
        then show "\<exists>ed. lookupEntry (setEntry s fname ?e') d = Some ed" by simp
      qed
      with Some False show ?thesis by (simp add: internalReleaseGrammar.simps)
    qed
  qed
next
  case (2 s)
  then show ?case by simp
next
  case (3 s dep deps)
  from "3.prems" have "refCountsCover s (add_mset dep (pending + mset deps))" by simp
  from "3.hyps"(1)[OF this] have "refCountsCover (internalReleaseGrammar s dep) (pending + mset deps)" .
  from "3.hyps"(2)[OF this] show ?case by simp
qed



subsection \<open>Parsing again\<close>

lemma reparse_unfold:
  assumes "lookupEntry s G = Some e"
  shows "reparse n env s G =
           map_option (\<lambda>s2. releaseDependencies s2 (dependencies e))
             (loadNewDependencies n env (cleared s e) e (parse env (sourceText (context e))))"
  using assms
  by (simp add: reparse_def parseGrammar.simps Let_def cleared_def foldl_releaseGrammar
      split: option.splits)

lemma cleared_lookup:
  assumes "lookupEntry s G = Some e" and "grammar e = G"
  shows "lookupEntry (cleared s e) k =
           (if k = G then Some (e\<lparr>dependencies := []\<rparr>) else lookupEntry s k)"
  using assms by (auto simp: cleared_def)

lemma cleared_importDir: "importDir (cleared s e) = importDir s"
  by (simp add: cleared_def)

subsection \<open>Reference counts under load\<close>

lemma deleteEntry_setEntry: "deleteEntry (setEntry s k e) k = deleteEntry s k"
  by (simp add: deleteEntry_def setEntry_def fmdrop_fmupd_same)

lemma liveReferences_deleteEntry_absent:
  assumes "lookupEntry s k = None"
  shows "liveReferences (deleteEntry s k) d = liveReferences s d"
proof -
  from assms have "k \<notin> fmdom' (sourceContexts s)" by (simp add: dom_lookupEntry)
  then have "deleteEntry s k = s" by (simp add: deleteEntry_def fmdrop_idle')
  then show ?thesis by simp
qed

lemma liveReferences_setEntry_present:
  assumes "lookupEntry s k = Some e"
  shows "int (liveReferences (setEntry s k e') d) =
           int (liveReferences s d) - int (count_list (dependencies e) d) +
           int (count_list (dependencies e') d)"
proof -
  have "lookupEntry (setEntry s k e') k = Some e'" by simp
  from liveReferences_deleteEntry[OF this, of d] liveReferences_deleteEntry[OF assms, of d]
  show ?thesis by (simp add: deleteEntry_setEntry)
qed

lemma liveReferences_setEntry_absent:
  assumes "lookupEntry s k = None"
  shows "liveReferences (setEntry s k e') d = liveReferences s d + count_list (dependencies e') d"
proof -
  have "lookupEntry (setEntry s k e') k = Some e'" by simp
  from liveReferences_deleteEntry[OF this, of d] liveReferences_deleteEntry_absent[OF assms, of d]
  show ?thesis by (simp add: deleteEntry_setEntry)
qed

lemma liveReferences_nextContext [simp]:
  "liveReferences (s\<lparr>nextContext := c\<rparr>) d = liveReferences s d"
  by (simp add: liveReferences_def lookupEntry_def)

lemma held_nextContext [simp]: "held (s\<lparr>nextContext := c\<rparr>) d = held s d"
  by (simp add: held_def)

lemma held_setEntry_count:
  assumes "lookupEntry s k = Some e" and "dependencies e' = dependencies e"
  shows "held (setEntry s k e') d = held s d + (if d = k then refCount e' - refCount e else 0)"
  using assms liveReferences_setEntry_present[OF assms(1), of e' d]
  by (cases "d = k") (auto simp: held_def)

lemma held_setEntry_new:
  assumes "lookupEntry s k = None" and "dependencies e' = []" and "refCount e' = 0"
  shows "held (setEntry s k e') d = held s d"
  using assms liveReferences_setEntry_absent[OF assms(1), of e' d]
  by (cases "d = k") (auto simp: held_def)

lemma held_pushDependency:
  assumes "lookupEntry s (grammar ce) = Some e"
  shows "held (pushDependency s ce p) d = held s d - (if d = p then 1 else 0)"
proof -
  let ?e' = "e\<lparr>dependencies := dependencies e @ [p]\<rparr>"
  have push: "pushDependency s ce p = setEntry s (grammar ce) ?e'"
    using assms by (simp add: pushDependency_def modifyEntry_def)
  from liveReferences_setEntry_present[OF assms, of ?e' d]
  have "int (liveReferences (setEntry s (grammar ce) ?e') d) =
          int (liveReferences s d) + (if d = p then 1 else 0)"
    by simp
  then show ?thesis unfolding push using assms
    by (cases "d = grammar ce") (auto simp: held_def)
qed

lemma held_increment:
  assumes "lookupEntry s k = Some e"
  shows "held (modifyEntry s k (\<lambda>e. e\<lparr>refCount := refCount e + 1\<rparr>)) d =
           held s d + (if d = k then 1 else 0)"
proof -
  have "modifyEntry s k (\<lambda>e. e\<lparr>refCount := refCount e + 1\<rparr>) =
          setEntry s k (e\<lparr>refCount := refCount e + 1\<rparr>)"
    using assms by (simp add: modifyEntry_def)
  with held_setEntry_count[OF assms, of "e\<lparr>refCount := refCount e + 1\<rparr>" d] show ?thesis by simp
qed

lemma extends_loaded:
  assumes "extends key added s s'" and "lookupEntry s k = Some e"
  shows "\<exists>e'. lookupEntry s' k = Some e'"
  using assms unfolding extends_def by blast

text \<open>
  A load of \<open>f\<close> that returns changes the surplus of exactly one file: \<open>f\<close> itself
  gains one. Every dependency loaded on the way gains one count and one listing, which
  cancel.
\<close>

lemma loadDependency_held:
  assumes P1: "\<And>s f src s' c d. loadGrammar n env s f src = Some (s', c) \<Longrightarrow>
                 held s' d = held s d + (if d = f then 1 else 0)"
    and "loadDependency n env s ce dep = Some (s', r)"
    and "lookupEntry s (grammar ce) = Some e"
  shows "held s' d = held s d"
proof (cases "locateDependency env s ce dep")
  case None
  with assms(2) show ?thesis by (simp add: loadDependency_locate)
next
  case (Some p)
  with assms(2) obtain c where "loadGrammar n env (pushDependency s ce p) p None = Some (s', c)"
    by (auto simp: loadDependency_locate withContext_def split: option.splits)
  from P1[OF this] held_pushDependency[OF assms(3), of p d] show ?thesis by simp
qed

lemma loadNewDependencies_held:
  assumes P1: "\<And>s f src s' c d. loadGrammar n env s f src = Some (s', c) \<Longrightarrow>
                 held s' d = held s d + (if d = f then 1 else 0)"
    and "loadNewDependencies n env s ce names = Some s'"
    and "lookupEntry s (grammar ce) = Some e"
  shows "held s' d = held s d"
  using assms(2,3)
proof (induct names arbitrary: s e)
  case Nil
  then show ?case by simp
next
  case (Cons x xs)
  from Cons.prems(1) obtain s1 r where
    step: "loadDependency n env s ce x = Some (s1, r)" and
    rest: "loadNewDependencies n env s1 ce xs = Some s'"
    by (auto split: option.splits)
  from loadDependency_extends[OF loadGrammar_extends step] Cons.prems(2)
  obtain e1 where "lookupEntry s1 (grammar ce) = Some e1"
    by (meson extends_loaded)
  from Cons.hyps[OF rest this] loadDependency_held[OF P1 step Cons.prems(2)]
  show ?case by simp
qed

lemma loadGrammar_held:
  "loadGrammar n env s f src = Some (s', c) \<Longrightarrow> held s' d = held s d + (if d = f then 1 else 0)"
proof (induct n arbitrary: s f src s' c d)
  case 0
  then show ?case
    by (auto simp: loadGrammar.simps held_setEntry_count split: option.splits)
next
  case (Suc m)
  show ?case
  proof (cases "lookupEntry s f")
    case (Some e)
    with Suc.prems show ?thesis
      by (auto simp: loadGrammar.simps held_setEntry_count)
  next
    case None
    define ce where "ce = \<lparr>context = \<lparr>ctx_id = nextContext s, fileName = f,
                                       sourceText = sourceOrDisk env f src\<rparr>,
                           refCount = 0, dependencies = [], grammar = f\<rparr>"
    define s1 where "s1 = (setEntry s f ce)\<lparr>nextContext := Suc (nextContext s)\<rparr>"
    from Suc.prems None obtain s2 where
      p: "parseGrammar m env s1 ce = Some s2" and
      s': "s' = modifyEntry s2 f (\<lambda>e. e\<lparr>refCount := refCount e + 1\<rparr>)"
      by (auto simp: loadGrammar.simps Let_def sourceOrDisk_def ce_def s1_def split: option.splits)
    have in1: "lookupEntry s1 (grammar ce) = Some ce" by (simp add: s1_def ce_def)
    have "dependencies ce = []" by (simp add: ce_def)
    from p parseGrammar_fresh[OF in1 this]
    have load: "loadNewDependencies m env s1 ce (parse env (sourceText (context ce))) = Some s2" by simp
    have h1: "held s1 d = held s d"
      unfolding s1_def using held_setEntry_new[OF None, of ce d] by (simp add: ce_def)
    have h2: "held s2 d = held s1 d"
      using loadNewDependencies_held[OF _ load in1] Suc.hyps by blast
    from loadNewDependencies_extends_all[OF load] in1 obtain e2 where "lookupEntry s2 f = Some e2"
      by (metis ContextEntry.select_convs(4) ce_def extends_loaded)
    from held_increment[OF this, of d] h1 h2 show ?thesis by (simp add: s')
  qed
qed

text \<open>
  The file a grammar has just been made to list is loaded next, so after a load every
  listed dependency is in the map again.
\<close>

lemma dependenciesLoadedBut_weaken:
  "dependenciesLoadedBut s X \<Longrightarrow> X \<subseteq> Y \<Longrightarrow> dependenciesLoadedBut s Y"
  unfolding dependenciesLoadedBut_def by blast

lemma dependenciesLoadedBut_setEntry_same:
  assumes "dependenciesLoadedBut s {f}" and "lookupEntry s f = Some e"
    and "dependencies e' = dependencies e"
  shows "dependenciesLoadedBut (setEntry s f e') {}"
  unfolding dependenciesLoadedBut_def
proof (intro allI impI)
  fix k ek d assume k: "lookupEntry (setEntry s f e') k = Some ek" and d: "d \<in> set (dependencies ek)"
  from k assms(2,3) obtain ek' where "lookupEntry s k = Some ek'" "dependencies ek' = dependencies ek"
    by (cases "k = f") auto
  with assms(1) d have "lookupEntry s d \<noteq> None \<or> d = f"
    unfolding dependenciesLoadedBut_def by (metis singletonD)
  then show "lookupEntry (setEntry s f e') d \<noteq> None \<or> d \<in> {}" by auto
qed

lemma dependenciesLoadedBut_setEntry_new:
  assumes "dependenciesLoadedBut s {f}" and "lookupEntry s f = None" and "dependencies e' = []"
  shows "dependenciesLoadedBut ((setEntry s f e')\<lparr>nextContext := c\<rparr>) {}"
  unfolding dependenciesLoadedBut_def
proof (intro allI impI)
  fix k ek d
  assume k: "lookupEntry ((setEntry s f e')\<lparr>nextContext := c\<rparr>) k = Some ek"
    and d: "d \<in> set (dependencies ek)"
  from k d assms(3) have "k \<noteq> f" by auto
  with k have "lookupEntry s k = Some ek" by simp
  with assms(1) d have "lookupEntry s d \<noteq> None \<or> d = f"
    unfolding dependenciesLoadedBut_def by (metis singletonD)
  then show "lookupEntry ((setEntry s f e')\<lparr>nextContext := c\<rparr>) d \<noteq> None \<or> d \<in> {}" by auto
qed

lemma dependenciesLoadedBut_pushDependency:
  assumes "dependenciesLoadedBut s {}"
  shows "dependenciesLoadedBut (pushDependency s ce p) {p}"
  unfolding dependenciesLoadedBut_def
proof (intro allI impI)
  fix k ek d
  assume k: "lookupEntry (pushDependency s ce p) k = Some ek" and d: "d \<in> set (dependencies ek)"
  show "lookupEntry (pushDependency s ce p) d \<noteq> None \<or> d \<in> {p}"
  proof (cases "d = p")
    case True
    then show ?thesis by simp
  next
    case False
    from k obtain ek' where ek': "lookupEntry s k = Some ek'"
      "set (dependencies ek) \<subseteq> insert p (set (dependencies ek'))"
      by (cases "k = grammar ce") (auto simp: pushDependency_lookup)
    with d False have "d \<in> set (dependencies ek')" by auto
    with assms ek'(1) have "lookupEntry s d \<noteq> None"
      unfolding dependenciesLoadedBut_def by blast
    then show ?thesis by (auto simp: pushDependency_lookup)
  qed
qed

lemma dependenciesLoadedBut_increment:
  assumes "dependenciesLoadedBut s {}"
  shows "dependenciesLoadedBut (modifyEntry s k (\<lambda>e. e\<lparr>refCount := refCount e + 1\<rparr>)) {}"
  unfolding dependenciesLoadedBut_def
proof (intro allI impI)
  fix k' ek d
  assume k: "lookupEntry (modifyEntry s k (\<lambda>e. e\<lparr>refCount := refCount e + 1\<rparr>)) k' = Some ek"
    and d: "d \<in> set (dependencies ek)"
  from k obtain ek' where ek': "lookupEntry s k' = Some ek'" "dependencies ek' = dependencies ek"
    by (cases "k' = k") auto
  from d ek'(2) have "d \<in> set (dependencies ek')" by simp
  with assms ek'(1) have "lookupEntry s d \<noteq> None"
    unfolding dependenciesLoadedBut_def by blast
  then show "lookupEntry (modifyEntry s k (\<lambda>e. e\<lparr>refCount := refCount e + 1\<rparr>)) d \<noteq> None \<or> d \<in> {}"
    by auto
qed

lemma loadDependency_listed:
  assumes Q1: "\<And>s f src s' c. dependenciesLoadedBut s {f} \<Longrightarrow>
                 loadGrammar n env s f src = Some (s', c) \<Longrightarrow> dependenciesLoadedBut s' {}"
    and "dependenciesLoadedBut s {}"
    and "loadDependency n env s ce dep = Some (s', r)"
  shows "dependenciesLoadedBut s' {}"
proof (cases "locateDependency env s ce dep")
  case None
  with assms(2,3) show ?thesis by (simp add: loadDependency_locate)
next
  case (Some p)
  with assms(3) obtain c where "loadGrammar n env (pushDependency s ce p) p None = Some (s', c)"
    by (auto simp: loadDependency_locate withContext_def split: option.splits)
  with dependenciesLoadedBut_pushDependency[OF assms(2), of ce p] show ?thesis by (rule Q1)
qed

lemma loadNewDependencies_listed:
  assumes Q1: "\<And>s f src s' c. dependenciesLoadedBut s {f} \<Longrightarrow>
                 loadGrammar n env s f src = Some (s', c) \<Longrightarrow> dependenciesLoadedBut s' {}"
    and "dependenciesLoadedBut s {}"
    and "loadNewDependencies n env s ce names = Some s'"
  shows "dependenciesLoadedBut s' {}"
  using assms(2,3)
proof (induct names arbitrary: s)
  case Nil
  then show ?case by simp
next
  case (Cons x xs)
  from Cons.prems(2) obtain s1 r where
    step: "loadDependency n env s ce x = Some (s1, r)" and
    rest: "loadNewDependencies n env s1 ce xs = Some s'"
    by (auto split: option.splits)
  from loadDependency_listed[OF Q1 Cons.prems(1) step] have "dependenciesLoadedBut s1 {}" .
  from Cons.hyps[OF this rest] show ?case .
qed

lemma loadGrammar_listed:
  "dependenciesLoadedBut s {f} \<Longrightarrow> loadGrammar n env s f src = Some (s', c) \<Longrightarrow>
     dependenciesLoadedBut s' {}"
proof (induct n arbitrary: s f src s' c)
  case 0
  then show ?case
    by (auto simp: loadGrammar.simps dependenciesLoadedBut_setEntry_same split: option.splits)
next
  case (Suc m)
  show ?case
  proof (cases "lookupEntry s f")
    case (Some e)
    with Suc.prems show ?thesis
      by (auto simp: loadGrammar.simps dependenciesLoadedBut_setEntry_same)
  next
    case None
    define ce where "ce = \<lparr>context = \<lparr>ctx_id = nextContext s, fileName = f,
                                       sourceText = sourceOrDisk env f src\<rparr>,
                           refCount = 0, dependencies = [], grammar = f\<rparr>"
    define s1 where "s1 = (setEntry s f ce)\<lparr>nextContext := Suc (nextContext s)\<rparr>"
    from Suc.prems None obtain s2 where
      p: "parseGrammar m env s1 ce = Some s2" and
      s': "s' = modifyEntry s2 f (\<lambda>e. e\<lparr>refCount := refCount e + 1\<rparr>)"
      by (auto simp: loadGrammar.simps Let_def sourceOrDisk_def ce_def s1_def split: option.splits)
    have in1: "lookupEntry s1 (grammar ce) = Some ce" by (simp add: s1_def ce_def)
    have "dependencies ce = []" by (simp add: ce_def)
    from p parseGrammar_fresh[OF in1 this]
    have load: "loadNewDependencies m env s1 ce (parse env (sourceText (context ce))) = Some s2" by simp
    have "dependenciesLoadedBut s1 {}"
      unfolding s1_def by (rule dependenciesLoadedBut_setEntry_new[OF Suc.prems(1) None]) (simp add: ce_def)
    from loadNewDependencies_listed[OF _ this load] Suc.hyps
    have "dependenciesLoadedBut s2 {}" by blast
    then show ?thesis unfolding s' by (rule dependenciesLoadedBut_increment)
  qed
qed

text \<open>
  Together: the counting invariant holds of the empty facade, a load that returns keeps
  it, and the loaded file is left with a count above the number of grammars listing it.
\<close>

lemma liveReferences_absent:
  assumes "dependenciesLoadedBut s {}" and "lookupEntry s d = None"
  shows "liveReferences s d = 0"
  unfolding liveReferences_def
proof (rule sum.neutral, rule ballI)
  fix k assume "k \<in> fmdom' (sourceContexts s)"
  then obtain e where e: "lookupEntry s k = Some e" by (auto simp: dom_lookupEntry)
  with assms have "d \<notin> set (dependencies e)"
    unfolding dependenciesLoadedBut_def by blast
  with e show "count_list (dependencies (the (lookupEntry s k))) d = 0"
    by (simp add: count_list_0_iff)
qed

lemma refCountsCover_held:
  "refCountsCover s {#} \<longleftrightarrow>
     dependenciesLoadedBut s {} \<and> (\<forall>d e. lookupEntry s d = Some e \<longrightarrow> 0 \<le> held s d)"
proof -
  have a: "dependenciesLoadedBut s {} \<longleftrightarrow>
        (\<forall>k e d. lookupEntry s k = Some e \<longrightarrow> d \<in> set (dependencies e) \<longrightarrow>
                 (\<exists>ed. lookupEntry s d = Some ed))"
    unfolding dependenciesLoadedBut_def by auto
  have b: "(\<forall>d e. lookupEntry s d = Some e \<longrightarrow> 0 \<le> held s d) \<longleftrightarrow>
        (\<forall>d e. lookupEntry s d = Some e \<longrightarrow>
               int (liveReferences s d) + int (count {#} d) \<le> refCount e)"
    unfolding held_def by auto
  show ?thesis unfolding refCountsCover_iff a b by blast
qed

lemma loadGrammar_refCountsCover:
  assumes "refCountsCover s {#}" and "loadGrammar n env s f src = Some (s', c)"
  shows "refCountsCover s' {#} \<and>
         (\<exists>e'. lookupEntry s' f = Some e' \<and> int (liveReferences s' f) < refCount e')"
proof -
  from assms(1) have listed: "dependenciesLoadedBut s {}"
    and pos: "\<And>d e. lookupEntry s d = Some e \<Longrightarrow> 0 \<le> held s d"
    unfolding refCountsCover_held by blast+
  have before: "0 \<le> held s d" for d
  proof (cases "lookupEntry s d")
    case None
    with liveReferences_absent[OF listed None] show ?thesis by (simp add: held_def)
  next
    case (Some e)
    then show ?thesis by (rule pos)
  qed
  have after: "held s' d = held s d + (if d = f then 1 else 0)" for d
    using assms(2) by (rule loadGrammar_held)
  from listed have "dependenciesLoadedBut s {f}" by (rule dependenciesLoadedBut_weaken) simp
  then have listed': "dependenciesLoadedBut s' {}" using assms(2) by (rule loadGrammar_listed)
  have "0 \<le> held s' d" for d using before[of d] after[of d] by simp
  with listed' have cover: "refCountsCover s' {#}" unfolding refCountsCover_held by blast
  obtain e' where e': "lookupEntry s' f = Some e'"
  proof (cases "lookupEntry s f")
    case None
    from loadGrammar_fresh_result[OF None assms(2)] that show ?thesis by blast
  next
    case (Some e)
    with assms(2) that show ?thesis by (auto simp: loadGrammar_loaded)
  qed
  from before[of f] after[of f] have "1 \<le> held s' f" by simp
  with e' have "int (liveReferences s' f) < refCount e'" by (simp add: held_def)
  with cover e' show ?thesis by blast
qed

lemma refCountsCover_newFacade: "refCountsCover (newFacade dir) {#}"
  unfolding refCountsCover_held
  by (simp add: dependenciesLoadedBut_def lookupEntry_def newFacade_def)


subsection \<open>Loading returns\<close>

text \<open>
  Every dependency is loaded from a path that passes a file system check, and each
  level of the descent loads a path that was not in the map. With finitely many such
  paths, fuel above their number is enough for every load.
\<close>

lemma located_on_disk:
  "locateDependency env s ce d = Some p \<Longrightarrow> p \<in> diskFiles env"
  by (auto simp: locateDependency_unfold diskFiles_def Let_def split: if_splits)

lemma dom_pushDependency:
  "fmdom' (sourceContexts (pushDependency s ce p)) = fmdom' (sourceContexts s)"
  by (auto simp: dom_lookupEntry pushDependency_lookup split: if_splits)

lemma notLoaded_extends:
  assumes "extends key added s s'"
  shows "notLoaded env s' \<subseteq> notLoaded env s"
  using extends_loaded[OF assms] by (fastforce simp: notLoaded_def dom_lookupEntry)

lemma loadDependency_returns:
  assumes P: "\<And>s f src. card (notLoaded env s - {f}) < n \<Longrightarrow> \<exists>r. loadGrammar n env s f src = Some r"
    and fin: "finite (diskFiles env)" and few: "card (notLoaded env s) \<le> n"
  shows "\<exists>r. loadDependency n env s ce d = Some r"
proof (cases "locateDependency env s ce d")
  case None
  then show ?thesis by (simp add: loadDependency_locate)
next
  case (Some p)
  let ?sp = "pushDependency s ce p"
  have same: "notLoaded env ?sp = notLoaded env s" by (simp add: notLoaded_def dom_pushDependency)
  have "\<exists>r. loadGrammar n env ?sp p None = Some r"
  proof (cases "lookupEntry ?sp p")
    case (Some e)
    then show ?thesis by (simp add: loadGrammar_loaded)
  next
    case None
    with located_on_disk[OF Some] have "p \<in> notLoaded env ?sp"
      by (auto simp: notLoaded_def dom_lookupEntry)
    moreover from fin have "finite (notLoaded env ?sp)" by (simp add: notLoaded_def)
    ultimately have "card (notLoaded env ?sp - {p}) < card (notLoaded env ?sp)"
      by (intro card_Diff1_less)
    with few same have "card (notLoaded env ?sp - {p}) < n" by simp
    then show ?thesis by (rule P)
  qed
  with Some show ?thesis by (auto simp: loadDependency_locate withContext_def)
qed

lemma loadNewDependencies_returns_step:
  assumes P: "\<And>s f src. card (notLoaded env s - {f}) < n \<Longrightarrow> \<exists>r. loadGrammar n env s f src = Some r"
    and fin: "finite (diskFiles env)" and few: "card (notLoaded env s) \<le> n"
  shows "\<exists>s'. loadNewDependencies n env s ce names = Some s'"
  using few
proof (induct names arbitrary: s)
  case Nil
  then show ?case by simp
next
  case (Cons x xs)
  from loadDependency_returns[OF P fin Cons.prems, of ce x]
  obtain s1 r where step: "loadDependency n env s ce x = Some (s1, r)" by auto
  from loadDependency_extends[OF loadGrammar_extends step]
  have "notLoaded env s1 \<subseteq> notLoaded env s" by (rule notLoaded_extends)
  moreover from fin have "finite (notLoaded env s)" by (simp add: notLoaded_def)
  ultimately have "card (notLoaded env s1) \<le> card (notLoaded env s)" by (intro card_mono)
  with Cons.prems have "card (notLoaded env s1) \<le> n" by simp
  from Cons.hyps[OF this] step show ?case by simp
qed

lemma loadGrammar_returns_notLoaded:
  assumes fin: "finite (diskFiles env)"
  shows "card (notLoaded env s - {f}) < n \<Longrightarrow> \<exists>r. loadGrammar n env s f src = Some r"
proof (induct n arbitrary: s f src)
  case 0
  then show ?case by simp
next
  case (Suc m)
  show ?case
  proof (cases "lookupEntry s f")
    case (Some e)
    then show ?thesis by (simp add: loadGrammar_loaded)
  next
    case None
    define ce where "ce = \<lparr>context = \<lparr>ctx_id = nextContext s, fileName = f,
                                       sourceText = sourceOrDisk env f src\<rparr>,
                           refCount = 0, dependencies = [], grammar = f\<rparr>"
    define s1 where "s1 = (setEntry s f ce)\<lparr>nextContext := Suc (nextContext s)\<rparr>"
    have in1: "lookupEntry s1 (grammar ce) = Some ce" by (simp add: s1_def ce_def)
    have "dependencies ce = []" by (simp add: ce_def)
    note fresh = parseGrammar_fresh[OF in1 this, of m env]
    have "notLoaded env s1 = notLoaded env s - {f}"
      by (auto simp: notLoaded_def s1_def dom_lookupEntry split: if_splits)
    with Suc.prems have "card (notLoaded env s1) \<le> m" by simp
    from loadNewDependencies_returns_step[OF Suc.hyps fin this, of ce "parse env (sourceText (context ce))"]
    obtain s2 where "parseGrammar m env s1 ce = Some s2" unfolding fresh by blast
    with None show ?thesis
      by (simp add: loadGrammar.simps Let_def sourceOrDisk_def ce_def s1_def)
  qed
qed

lemma card_notLoaded:
  assumes "finite (diskFiles env)"
  shows "card (notLoaded env s - X) \<le> card (diskFiles env)"
  using assms by (intro card_mono) (auto simp: notLoaded_def)

lemma loadGrammar_returns:
  assumes "finite (diskFiles env)" and "card (diskFiles env) < n"
  shows "\<exists>s' c. loadGrammar n env s f src = Some (s', c)"
proof -
  from card_notLoaded[OF assms(1), of s "{f}"] assms(2) have "card (notLoaded env s - {f}) < n" by simp
  from loadGrammar_returns_notLoaded[OF assms(1) this] show ?thesis by auto
qed

lemma loadNewDependencies_returns:
  assumes "finite (diskFiles env)" and "card (diskFiles env) < n"
  shows "\<exists>s'. loadNewDependencies n env s ce names = Some s'"
proof -
  from card_notLoaded[OF assms(1), of s "{}"] assms(2) have "card (notLoaded env s) \<le> n" by simp
  from loadNewDependencies_returns_step[OF loadGrammar_returns_notLoaded[OF assms(1)] assms(1) this]
  show ?thesis .
qed

lemma diskFiles_diskEnv:
  "diskFiles (diskEnv files unreadable imports broken) = fst ` set files"
  by (auto simp: diskFiles_def diskEnv_def dom_map_of_conv_image_fst[symmetric] domIff)

subsection \<open>The surplus under release\<close>

text \<open>
  Under the counting invariant a release takes one from the surplus of the released
  file, if it is loaded, and changes no other surplus; a file with a release still due
  is not unloaded by another release.
\<close>

lemma refCountsCover_unload:
  assumes cover: "refCountsCover s (add_mset f pending)"
    and found: "lookupEntry s f = Some e" and last: "refCount e - 1 = 0"
  shows "refCountsCover (deleteEntry s f) (pending + mset (dependencies e))"
    and "liveReferences s f = 0" and "count pending f = 0" and "f \<notin> set (dependencies e)"
proof -
  note cover' = cover[unfolded refCountsCover_iff]
  from cover' found have own: "int (liveReferences s f) + int (count pending f) + 1 \<le> refCount e"
    by fastforce
  with last show unreferenced: "liveReferences s f = 0" and "count pending f = 0" by simp_all
  have noref: "f \<notin> set (dependencies ek)" if "lookupEntry s k = Some ek" for k ek
  proof -
    from liveReferences_member[OF that, of f] unreferenced
    have "count_list (dependencies ek) f = 0" by simp
    then show ?thesis by (simp add: count_list_0_iff)
  qed
  from noref[OF found] show "f \<notin> set (dependencies e)" .
  show "refCountsCover (deleteEntry s f) (pending + mset (dependencies e))"
    unfolding refCountsCover_iff
  proof (intro conjI allI impI)
    fix d ed assume "lookupEntry (deleteEntry s f) d = Some ed"
    then have d: "d \<noteq> f" "lookupEntry s d = Some ed" by (auto split: if_splits)
    with cover' have "int (liveReferences s d) + int (count (add_mset f pending) d) \<le> refCount ed"
      by blast
    with d(1) liveReferences_deleteEntry[OF found, of d]
    show "int (liveReferences (deleteEntry s f) d) +
            int (count (pending + mset (dependencies e)) d) \<le> refCount ed"
      by (simp add: count_mset)
  next
    fix k ek d assume "lookupEntry (deleteEntry s f) k = Some ek" "d \<in> set (dependencies ek)"
    then have k: "lookupEntry s k = Some ek" and dk: "d \<in> set (dependencies ek)"
      by (auto split: if_splits)
    from noref[OF k] dk have "d \<noteq> f" by auto
    moreover from cover' k dk obtain ed where "lookupEntry s d = Some ed" by blast
    ultimately show "\<exists>ed. lookupEntry (deleteEntry s f) d = Some ed" by simp
  qed
qed

lemma held_deleteEntry:
  assumes "lookupEntry s f = Some e"
  shows "held (deleteEntry s f) d =
           (if d = f then int (count_list (dependencies e) f) - int (liveReferences s f)
            else held s d + int (count_list (dependencies e) d))"
  using liveReferences_deleteEntry[OF assms, of d] by (cases "d = f") (simp_all add: held_def)

lemma release_held:
  "refCountsCover s (add_mset f pending) \<Longrightarrow> lookupEntry s f \<noteq> None \<Longrightarrow>
   (\<forall>p \<in># pending. lookupEntry s p \<noteq> None) \<Longrightarrow>
     held (internalReleaseGrammar s f) d = held s d - (if d = f then 1 else 0) \<and>
     (\<forall>p \<in># pending. lookupEntry (internalReleaseGrammar s f) p \<noteq> None)"
  "refCountsCover s (pending + mset ds) \<Longrightarrow>
   (\<forall>p \<in># pending + mset ds. lookupEntry s p \<noteq> None) \<Longrightarrow>
     held (releaseDependencies s ds) d = held s d - int (count_list ds d) \<and>
     (\<forall>p \<in># pending. lookupEntry (releaseDependencies s ds) p \<noteq> None)"
proof (induct s f and s ds arbitrary: pending and pending
    rule: internalReleaseGrammar_releaseDependencies.induct)
  case (1 s fname)
  from "1.prems"(2) obtain e where found: "lookupEntry s fname = Some e" by auto
  show ?case
  proof (cases "refCount e - 1 = 0")
    case True
    note unload = refCountsCover_unload[OF "1.prems"(1) found True]
    have loaded: "\<forall>p \<in># pending + mset (dependencies e). lookupEntry (deleteEntry s fname) p \<noteq> None"
    proof
      fix p assume "p \<in># pending + mset (dependencies e)"
      then consider "p \<in># pending" | "p \<in> set (dependencies e)" by auto
      then show "lookupEntry (deleteEntry s fname) p \<noteq> None"
      proof cases
        case 1
        with unload(3) have "p \<noteq> fname" by (auto simp: count_eq_zero_iff)
        with 1 "1.prems"(3) show ?thesis by simp
      next
        case 2
        with unload(4) have "p \<noteq> fname" by auto
        moreover from "1.prems"(1) found 2 have "lookupEntry s p \<noteq> None"
          unfolding refCountsCover_iff by blast
        ultimately show ?thesis by simp
      qed
    qed
    from "1.hyps"[OF found True unload(1) loaded]
    have after: "held (releaseDependencies (deleteEntry s fname) (dependencies e)) d =
        held (deleteEntry s fname) d - int (count_list (dependencies e) d)"
      and kept: "\<forall>p \<in># pending. lookupEntry (releaseDependencies (deleteEntry s fname) (dependencies e)) p \<noteq> None"
      by blast+
    have result: "internalReleaseGrammar s fname = releaseDependencies (deleteEntry s fname) (dependencies e)"
      using found True by (simp add: internalReleaseGrammar.simps)
    from unload(4) have zero: "count_list (dependencies e) fname = 0" by (simp add: count_list_0_iff)
    have "held s fname = 1" using found True unload(2) by (simp add: held_def)
    with after zero unload(2) have "held (internalReleaseGrammar s fname) d = held s d - (if d = fname then 1 else 0)"
      unfolding result held_deleteEntry[OF found] by simp
    with kept show ?thesis unfolding result by blast
  next
    case False
    have result: "internalReleaseGrammar s fname = setEntry s fname (e\<lparr>refCount := refCount e - 1\<rparr>)"
      using found False by (simp add: internalReleaseGrammar.simps)
    have "held (internalReleaseGrammar s fname) d = held s d - (if d = fname then 1 else 0)"
      unfolding result by (simp add: held_setEntry_count[OF found])
    moreover have "\<forall>p \<in># pending. lookupEntry (internalReleaseGrammar s fname) p \<noteq> None"
      unfolding result using "1.prems"(3) by simp
    ultimately show ?thesis by blast
  qed
next
  case (2 s)
  then show ?case by simp
next
  case (3 s dep deps)
  from "3.prems"(1) have cover: "refCountsCover s (add_mset dep (pending + mset deps))" by simp
  from "3.prems"(2) have dep: "lookupEntry s dep \<noteq> None"
    and rest: "\<forall>p \<in># pending + mset deps. lookupEntry s p \<noteq> None" by auto
  from "3.hyps"(1)[OF cover dep rest]
  have one: "held (internalReleaseGrammar s dep) d = held s d - (if d = dep then 1 else 0)"
    and kept: "\<forall>p \<in># pending + mset deps. lookupEntry (internalReleaseGrammar s dep) p \<noteq> None"
    by blast+
  from release_cover(1)[OF cover]
  have "refCountsCover (internalReleaseGrammar s dep) (pending + mset deps)" .
  from "3.hyps"(2)[OF this kept] one show ?case by simp
qed

subsection \<open>Counts stay positive\<close>

lemma countsPositive_iff: "countsPositive s \<longleftrightarrow> countsPositiveBut s {}"
  unfolding countsPositive_def countsPositiveBut_def
proof
  assume a: "\<forall>k \<in> fmdom' (sourceContexts s). 1 \<le> refCount (the (lookupEntry s k))"
  show "\<forall>k e. lookupEntry s k = Some e \<longrightarrow> (if k \<in> {} then 0 \<le> refCount e else 1 \<le> refCount e)"
  proof (intro allI impI)
    fix k e assume k: "lookupEntry s k = Some e"
    then have "k \<in> fmdom' (sourceContexts s)" by (auto simp: dom_lookupEntry)
    with a k show "if k \<in> {} then 0 \<le> refCount e else 1 \<le> refCount e" by fastforce
  qed
next
  assume "\<forall>k e. lookupEntry s k = Some e \<longrightarrow> (if k \<in> {} then 0 \<le> refCount e else 1 \<le> refCount e)"
  then show "\<forall>k \<in> fmdom' (sourceContexts s). 1 \<le> refCount (the (lookupEntry s k))"
    by (auto simp: dom_lookupEntry)
qed

lemma countsPositiveBut_weaken:
  "countsPositiveBut s X \<Longrightarrow> X \<subseteq> Y \<Longrightarrow> countsPositiveBut s Y"
  unfolding countsPositiveBut_def by (auto split: if_splits) fastforce+

lemma countsPositiveBut_pushDependency:
  assumes "countsPositiveBut s X"
  shows "countsPositiveBut (pushDependency s ce p) X"
  unfolding countsPositiveBut_def
proof (intro allI impI)
  fix k e assume "lookupEntry (pushDependency s ce p) k = Some e"
  then obtain e0 where "lookupEntry s k = Some e0" "refCount e = refCount e0"
    by (auto simp: pushDependency_lookup split: if_splits)
  with assms show "if k \<in> X then 0 \<le> refCount e else 1 \<le> refCount e"
    unfolding countsPositiveBut_def by metis
qed

lemma countsPositiveBut_increment:
  assumes "countsPositiveBut s X"
  shows "countsPositiveBut (modifyEntry s f (\<lambda>e. e\<lparr>refCount := refCount e + 1\<rparr>)) (X - {f})"
  unfolding countsPositiveBut_def
proof (intro allI impI)
  fix k e assume k: "lookupEntry (modifyEntry s f (\<lambda>e. e\<lparr>refCount := refCount e + 1\<rparr>)) k = Some e"
  show "if k \<in> X - {f} then 0 \<le> refCount e else 1 \<le> refCount e"
  proof (cases "k = f")
    case True
    with k obtain e0 where "lookupEntry s f = Some e0" "refCount e = refCount e0 + 1" by auto
    with assms have "1 \<le> refCount e" unfolding countsPositiveBut_def by (auto split: if_splits) fastforce+
    with True show ?thesis by simp
  next
    case False
    with k have "lookupEntry s k = Some e" by simp
    with assms False show ?thesis unfolding countsPositiveBut_def by auto
  qed
qed

lemma loadDependency_positive:
  assumes P: "\<And>s f src s' c X. countsPositiveBut s X \<Longrightarrow>
                loadGrammar n env s f src = Some (s', c) \<Longrightarrow> countsPositiveBut s' (X - {f})"
    and "countsPositiveBut s X" and "loadDependency n env s ce dep = Some (s', r)"
  shows "countsPositiveBut s' X"
proof (cases "locateDependency env s ce dep")
  case None
  with assms(2,3) show ?thesis by (simp add: loadDependency_locate)
next
  case (Some p)
  with assms(3) obtain c where "loadGrammar n env (pushDependency s ce p) p None = Some (s', c)"
    by (auto simp: loadDependency_locate withContext_def split: option.splits)
  from P[OF countsPositiveBut_pushDependency[OF assms(2)] this]
  show ?thesis by (rule countsPositiveBut_weaken) auto
qed

lemma loadNewDependencies_positive_step:
  assumes P: "\<And>s f src s' c X. countsPositiveBut s X \<Longrightarrow>
                loadGrammar n env s f src = Some (s', c) \<Longrightarrow> countsPositiveBut s' (X - {f})"
    and "countsPositiveBut s X" and "loadNewDependencies n env s ce names = Some s'"
  shows "countsPositiveBut s' X"
  using assms(2,3)
proof (induct names arbitrary: s)
  case Nil
  then show ?case by simp
next
  case (Cons x xs)
  from Cons.prems(2) obtain s1 r where
    step: "loadDependency n env s ce x = Some (s1, r)" and
    rest: "loadNewDependencies n env s1 ce xs = Some s'"
    by (auto split: option.splits)
  from loadDependency_positive[OF P Cons.prems(1) step] have "countsPositiveBut s1 X" .
  from Cons.hyps[OF this rest] show ?case .
qed

lemma loadGrammar_positive:
  "countsPositiveBut s X \<Longrightarrow> loadGrammar n env s f src = Some (s', c) \<Longrightarrow>
     countsPositiveBut s' (X - {f})"
proof (induct n arbitrary: s f src s' c X)
  case 0
  from "0.prems"(2) obtain e where e: "lookupEntry s f = Some e"
    by (cases "lookupEntry s f") (auto simp: loadGrammar.simps)
  with "0.prems"(2) have "s' = modifyEntry s f (\<lambda>e. e\<lparr>refCount := refCount e + 1\<rparr>)"
    by (auto simp: loadGrammar_loaded modifyEntry_def)
  with countsPositiveBut_increment[OF "0.prems"(1)] show ?case by simp
next
  case (Suc m)
  show ?case
  proof (cases "lookupEntry s f")
    case (Some e)
    with Suc.prems(2) have "s' = modifyEntry s f (\<lambda>e. e\<lparr>refCount := refCount e + 1\<rparr>)"
      by (auto simp: loadGrammar_loaded modifyEntry_def)
    with countsPositiveBut_increment[OF Suc.prems(1)] show ?thesis by simp
  next
    case None
    define ce where "ce = \<lparr>context = \<lparr>ctx_id = nextContext s, fileName = f,
                                       sourceText = sourceOrDisk env f src\<rparr>,
                           refCount = 0, dependencies = [], grammar = f\<rparr>"
    define s1 where "s1 = (setEntry s f ce)\<lparr>nextContext := Suc (nextContext s)\<rparr>"
    from Suc.prems None obtain s2 where
      p: "parseGrammar m env s1 ce = Some s2" and
      s': "s' = modifyEntry s2 f (\<lambda>e. e\<lparr>refCount := refCount e + 1\<rparr>)"
      by (auto simp: loadGrammar.simps Let_def sourceOrDisk_def ce_def s1_def split: option.splits)
    have in1: "lookupEntry s1 (grammar ce) = Some ce" by (simp add: s1_def ce_def)
    have "dependencies ce = []" by (simp add: ce_def)
    from p parseGrammar_fresh[OF in1 this]
    have load: "loadNewDependencies m env s1 ce (parse env (sourceText (context ce))) = Some s2" by simp
    have "countsPositiveBut s1 (insert f X)"
      using Suc.prems(1) unfolding countsPositiveBut_def s1_def
      by (auto simp: ce_def split: if_splits)
    from loadNewDependencies_positive_step[OF Suc.hyps this load]
    have "countsPositiveBut s2 (insert f X)" .
    from countsPositiveBut_increment[OF this, of f] show ?thesis
      unfolding s' by (rule countsPositiveBut_weaken) auto
  qed
qed

lemma loadNewDependencies_positive:
  "countsPositiveBut s X \<Longrightarrow> loadNewDependencies n env s ce names = Some s' \<Longrightarrow>
     countsPositiveBut s' X"
  by (rule loadNewDependencies_positive_step[OF loadGrammar_positive])

lemma release_positive:
  assumes "countsPositive s"
  shows "countsPositive (releaseDependencies s ds)" and "countsPositive (internalReleaseGrammar s f)"
  using assms release_shrinks(2)[of s ds] release_shrinks(1)[of s f]
  unfolding countsPositive_iff countsPositiveBut_def shrinks_def by fastforce+

lemma loadNewDependencies_loads:
  assumes "loadNewDependencies n env s ce names = Some s'"
  shows "\<forall>p \<in> set (resolveAll env s ce names). lookupEntry s' p \<noteq> None"
  using assms
proof (induct names arbitrary: s)
  case Nil
  then show ?case by (simp add: resolveAll_def List.map_filter_simps)
next
  case (Cons x xs)
  from Cons.prems obtain s1 r where
    step: "loadDependency n env s ce x = Some (s1, r)" and
    rest: "loadNewDependencies n env s1 ce xs = Some s'"
    by (auto split: option.splits)
  from loadDependency_extends[OF loadGrammar_extends step] have "importDir s1 = importDir s"
    by (simp add: extends_def)
  then have same: "resolveAll env s1 ce xs = resolveAll env s ce xs" by (rule resolveAll_importDir)
  from Cons.hyps[OF rest] have tail: "\<forall>p \<in> set (resolveAll env s ce xs). lookupEntry s' p \<noteq> None"
    unfolding same .
  have head: "lookupEntry s' p \<noteq> None" if "locateDependency env s ce x = Some p" for p
  proof -
    from step that obtain c where "loadGrammar n env (pushDependency s ce p) p None = Some (s1, c)"
      by (auto simp: loadDependency_locate withContext_def split: option.splits)
    then have "getContext n env (pushDependency s ce p) p None = Some (s1, c) \<or>
               lookupEntry (pushDependency s ce p) p \<noteq> None"
      by (cases "lookupEntry (pushDependency s ce p) p") (auto simp: getContext_def)
    then have "lookupEntry s1 p \<noteq> None"
    proof
      assume "getContext n env (pushDependency s ce p) p None = Some (s1, c)"
      from getContext_registers[OF this] show ?thesis by auto
    next
      assume "lookupEntry (pushDependency s ce p) p \<noteq> None"
      then obtain e0 where "lookupEntry (pushDependency s ce p) p = Some e0" by auto
      with \<open>loadGrammar n env (pushDependency s ce p) p None = Some (s1, c)\<close>
      show ?thesis by (auto simp: loadGrammar_loaded)
    qed
    then obtain e1 where "lookupEntry s1 p = Some e1" by auto
    from extends_loaded[OF loadNewDependencies_extends_all[OF rest] this] show ?thesis by auto
  qed
  from head tail show ?case by (auto simp: resolveAll_Cons split: option.splits)
qed

subsection \<open>The surplus under reparse\<close>

lemma cleared_setEntry:
  assumes "lookupEntry s G = Some e" and "grammar e = G"
  shows "cleared s e = setEntry s G (e\<lparr>dependencies := []\<rparr>)"
  using assms by (simp add: cleared_def modifyEntry_def)

lemma cleared_held:
  assumes "lookupEntry s G = Some e" and "grammar e = G"
  shows "held (cleared s e) d = held s d + int (count_list (dependencies e) d)"
proof -
  have live: "int (liveReferences (cleared s e) d) =
      int (liveReferences s d) - int (count_list (dependencies e) d)"
    unfolding cleared_setEntry[OF assms]
    using liveReferences_setEntry_present[OF assms(1), of "e\<lparr>dependencies := []\<rparr>" d] by simp
  have "(case lookupEntry (cleared s e) d of None \<Rightarrow> 0 | Some x \<Rightarrow> refCount x) =
        (case lookupEntry s d of None \<Rightarrow> 0 | Some x \<Rightarrow> refCount x)"
    unfolding cleared_lookup[OF assms] using assms(1) by simp
  with live show ?thesis by (simp add: held_def)
qed

lemma cleared_listed:
  assumes "lookupEntry s G = Some e" and "grammar e = G" and "dependenciesLoadedBut s {}"
  shows "dependenciesLoadedBut (cleared s e) {}"
  unfolding dependenciesLoadedBut_def cleared_lookup[OF assms(1,2)]
proof (intro allI impI)
  fix k ek d
  assume k: "(if k = G then Some (e\<lparr>dependencies := []\<rparr>) else lookupEntry s k) = Some ek"
    and d: "d \<in> set (dependencies ek)"
  then have "k \<noteq> G" by (auto split: if_splits)
  with k have "lookupEntry s k = Some ek" by simp
  with assms(3) d have "lookupEntry s d \<noteq> None" unfolding dependenciesLoadedBut_def by blast
  then show "(if d = G then Some (e\<lparr>dependencies := []\<rparr>) else lookupEntry s d) \<noteq> None \<or> d \<in> {}"
    by simp
qed

lemma cleared_positive:
  assumes "lookupEntry s G = Some e" and "grammar e = G" and "countsPositiveBut s X"
  shows "countsPositiveBut (cleared s e) X"
  unfolding countsPositiveBut_def cleared_lookup[OF assms(1,2)]
proof (intro allI impI)
  fix k ek
  assume "(if k = G then Some (e\<lparr>dependencies := []\<rparr>) else lookupEntry s k) = Some ek"
  then obtain e0 where "lookupEntry s k = Some e0" "refCount ek = refCount e0"
    using assms(1) by (auto split: if_splits)
  with assms(3) show "if k \<in> X then 0 \<le> refCount ek else 1 \<le> refCount ek"
    unfolding countsPositiveBut_def by metis
qed

lemma held_nonnegative:
  assumes "refCountsCover s {#}"
  shows "0 \<le> held s d"
proof -
  from assms have listed: "dependenciesLoadedBut s {}"
    and pos: "\<And>d e. lookupEntry s d = Some e \<Longrightarrow> 0 \<le> held s d"
    unfolding refCountsCover_held by blast+
  show ?thesis
  proof (cases "lookupEntry s d")
    case None
    with liveReferences_absent[OF listed None] show ?thesis by (simp add: held_def)
  next
    case (Some e)
    then show ?thesis by (rule pos)
  qed
qed

text \<open>
  Parsing again: emptying the list, loading the new dependencies and releasing the old
  ones leaves every surplus as it was, and keeps the counting invariant.
\<close>

lemma reparse_accounting:
  assumes found: "lookupEntry s G = Some e" and own: "grammar e = G"
    and cover: "refCountsCover s {#}"
    and fin: "finite (diskFiles env)" and fuel: "card (diskFiles env) < n"
  shows "\<exists>s2. loadNewDependencies n env (cleared s e) e (parse env (sourceText (context e))) = Some s2 \<and>
           reparse n env s G = Some (releaseDependencies s2 (dependencies e)) \<and>
           (\<exists>e2. lookupEntry s2 G = Some e2 \<and> dependencies e2 = newDependencies env s e \<and>
                 context e2 = context e) \<and>
           (\<forall>p \<in> set (newDependencies env s e). lookupEntry s2 p \<noteq> None) \<and>
           refCountsCover (releaseDependencies s2 (dependencies e)) {#} \<and>
           (\<forall>d. held (releaseDependencies s2 (dependencies e)) d = held s d) \<and>
           (countsPositive s \<longrightarrow> countsPositive (releaseDependencies s2 (dependencies e)))"
proof -
  let ?s1 = "cleared s e"
  let ?names = "parse env (sourceText (context e))"
  let ?old = "dependencies e"
  from loadNewDependencies_returns[OF fin fuel, of ?s1 e ?names]
  obtain s2 where load: "loadNewDependencies n env ?s1 e ?names = Some s2" by blast
  have new: "resolveAll env ?s1 e ?names = newDependencies env s e"
    unfolding newDependencies_def by (rule resolveAll_importDir[OF cleared_importDir])
  have run: "reparse n env s G = Some (releaseDependencies s2 ?old)"
    using load by (simp add: reparse_unfold[OF found])
  from cover have listed: "dependenciesLoadedBut s {}" unfolding refCountsCover_held by blast
  have in1: "lookupEntry ?s1 (grammar e) = Some (e\<lparr>dependencies := []\<rparr>)"
    using cleared_lookup[OF found own, of G] own by simp
  note ext = loadNewDependencies_extends_all[OF load]
  from ext in1 obtain e2 where e2: "lookupEntry s2 G = Some e2" "context e2 = context e"
      "dependencies e2 = newDependencies env s e"
    unfolding extends_def new using own by fastforce
  from loadNewDependencies_loads[OF load]
  have newLoaded: "\<forall>p \<in> set (newDependencies env s e). lookupEntry s2 p \<noteq> None" unfolding new .
  have held2: "held s2 d = held s d + int (count_list ?old d)" for d
    using loadNewDependencies_held[OF loadGrammar_held load in1, where d = d] cleared_held[OF found own, of d]
    by simp
  from loadNewDependencies_listed[OF loadGrammar_listed cleared_listed[OF found own listed] load]
  have listed2: "dependenciesLoadedBut s2 {}" .
  have cover2: "refCountsCover s2 ({#} + mset ?old)"
    unfolding refCountsCover_iff
  proof (intro conjI allI impI)
    fix d ed assume d: "lookupEntry s2 d = Some ed"
    from held2[of d] held_nonnegative[OF cover, of d] d
    show "int (liveReferences s2 d) + int (count ({#} + mset ?old) d) \<le> refCount ed"
      by (simp add: held_def count_mset)
  next
    fix k ek d assume "lookupEntry s2 k = Some ek" "d \<in> set (dependencies ek)"
    with listed2 show "\<exists>ed. lookupEntry s2 d = Some ed"
      unfolding dependenciesLoadedBut_def by fastforce
  qed
  have oldLoaded: "\<forall>p \<in># {#} + mset ?old. lookupEntry s2 p \<noteq> None"
  proof
    fix p assume "p \<in># {#} + mset ?old"
    then have "p \<in> set ?old" by simp
    with listed found have "lookupEntry s p \<noteq> None" unfolding dependenciesLoadedBut_def by blast
    then have "lookupEntry ?s1 p \<noteq> None"
      unfolding cleared_lookup[OF found own] by simp
    then obtain ep where "lookupEntry ?s1 p = Some ep" by blast
    from extends_loaded[OF ext this] show "lookupEntry s2 p \<noteq> None" by auto
  qed
  from release_held(2)[OF cover2 oldLoaded] held2
  have heldAfter: "\<forall>d. held (releaseDependencies s2 ?old) d = held s d" by simp
  from release_cover(2)[OF cover2] have coverAfter: "refCountsCover (releaseDependencies s2 ?old) {#}" .
  have positive: "countsPositive (releaseDependencies s2 ?old)" if "countsPositive s"
  proof -
    from that have "countsPositiveBut s {}" by (simp add: countsPositive_iff)
    from loadNewDependencies_positive[OF cleared_positive[OF found own this] load]
    have "countsPositive s2" by (simp add: countsPositive_iff)
    then show ?thesis by (rule release_positive(1))
  qed
  from load run e2 newLoaded coverAfter heldAfter positive show ?thesis by blast
qed

subsection \<open>What a fresh load leaves, and the sample disks\<close>

lemma loadGrammar_fresh_loaded:
  assumes None: "lookupEntry s f = None"
    and load: "loadGrammar n env s f src = Some (s', c)"
    and e': "lookupEntry s' f = Some e'"
  shows "\<forall>p \<in> set (dependencies e'). lookupEntry s' p \<noteq> None"
proof -
  from None load obtain m where n: "n = Suc m" by (cases n) (auto simp: loadGrammar.simps)
  define ce where "ce = \<lparr>context = \<lparr>ctx_id = nextContext s, fileName = f,
                                     sourceText = sourceOrDisk env f src\<rparr>,
                         refCount = 0, dependencies = [], grammar = f\<rparr>"
  define s1 where "s1 = (setEntry s f ce)\<lparr>nextContext := Suc (nextContext s)\<rparr>"
  from load None obtain s2 where
    p: "parseGrammar m env s1 ce = Some s2" and
    s': "s' = modifyEntry s2 f (\<lambda>e. e\<lparr>refCount := refCount e + 1\<rparr>)"
    unfolding n
    by (auto simp: loadGrammar.simps Let_def sourceOrDisk_def ce_def s1_def split: option.splits)
  have in1: "lookupEntry s1 (grammar ce) = Some ce" by (simp add: s1_def ce_def)
  have "dependencies ce = []" by (simp add: ce_def)
  from p parseGrammar_fresh[OF in1 this]
  have run: "loadNewDependencies m env s1 ce (parse env (sourceOrDisk env f src)) = Some s2"
    by (simp add: ce_def)
  from loadGrammar_fresh_result[OF None load] e'
  have deps: "dependencies e' = resolveAll env s e' (parse env (sourceOrDisk env f src))"
    and g: "grammar e' = f" by auto
  have "resolveAll env s1 ce (parse env (sourceOrDisk env f src)) = dependencies e'"
    unfolding deps by (rule resolveAll_cong) (simp_all add: s1_def ce_def g)
  with loadNewDependencies_loads[OF run]
  have "\<forall>p \<in> set (dependencies e'). lookupEntry s2 p \<noteq> None" by simp
  then show ?thesis unfolding s' by auto
qed

lemma finite_diskFiles_diskEnv: "finite (diskFiles (diskEnv files unreadable imports broken))"
  by (simp add: diskFiles_diskEnv)

lemma card_diskFiles_diskEnv:
  assumes "length files < n"
  shows "card (diskFiles (diskEnv files unreadable imports broken)) < n"
proof -
  have "card (fst ` set files) \<le> length files"
    by (metis card_image_le card_length le_trans List.finite_set)
  with assms show ?thesis unfolding diskFiles_diskEnv by simp
qed

subsection \<open>Gathering is a depth-first walk\<close>

text \<open>
  The gathering of \<open>pushDependencyFiles\<close> is the depth-first walk with the first visit
  of each context kept. It returns when the stored lists have no cycle, and it does not
  return, whatever the fuel, from an entry that lists itself.
\<close>

lemma push_depthFirst:
  "pushDependencyFiles n s entry cs =
     map_option (foldl setAdd cs) (depthFirst n s (dependencies entry))"
  "pushEach n s deps cs = map_option (foldl setAdd cs) (depthFirst n s deps)"
proof (induct n s entry cs and n s deps cs rule: pushDependencyFiles_pushEach.induct)
  case (1 n s entry contexts)
  then show ?case by simp
next
  case (2 n s contexts)
  then show ?case by simp
next
  case (3 n s dep deps contexts)
  show ?case
  proof (cases "lookupEntry s dep")
    case None
    with "3.hyps"(1) show ?thesis by simp
  next
    case (Some depEntry)
    show ?thesis
    proof (cases n)
      case 0
      with Some show ?thesis by simp
    next
      case (Suc m)
      note inner = "3.hyps"(2)[OF Some Suc]
      show ?thesis
      proof (cases "depthFirst m s (dependencies depEntry)")
        case None
        with inner Some Suc show ?thesis by simp
      next
        case (Some below)
        with inner have pushed: "pushDependencyFiles m s depEntry contexts = Some (foldl setAdd contexts below)"
          by simp
        from "3.hyps"(3)[OF \<open>lookupEntry s dep = Some depEntry\<close> Suc pushed]
        have "pushEach n s deps (setAdd (foldl setAdd contexts below) (context depEntry)) =
                map_option (foldl setAdd (setAdd (foldl setAdd contexts below) (context depEntry)))
                  (depthFirst n s deps)" .
        with pushed Some \<open>lookupEntry s dep = Some depEntry\<close> Suc show ?thesis
          by (cases "depthFirst (Suc m) s deps") simp_all
      qed
    qed
  qed
qed

lemma acyclicBelow_iff:
  "acyclicBelow n s rank \<longleftrightarrow>
     (\<forall>k e. lookupEntry s k = Some e \<longrightarrow> rank k < n \<and>
        (\<forall>d \<in> set (dependencies e). lookupEntry s d \<noteq> None \<longrightarrow> rank d < rank k))"
  unfolding acyclicBelow_def
proof
  assume a: "\<forall>k \<in> fmdom' (sourceContexts s). rank k < n \<and>
        (\<forall>d \<in> set (dependencies (the (lookupEntry s k))).
           d \<in> fmdom' (sourceContexts s) \<longrightarrow> rank d < rank k)"
  show "\<forall>k e. lookupEntry s k = Some e \<longrightarrow> rank k < n \<and>
        (\<forall>d \<in> set (dependencies e). lookupEntry s d \<noteq> None \<longrightarrow> rank d < rank k)"
  proof (intro allI impI)
    fix k e assume k: "lookupEntry s k = Some e"
    then have "k \<in> fmdom' (sourceContexts s)" by (auto simp: dom_lookupEntry)
    with a k show "rank k < n \<and>
        (\<forall>d \<in> set (dependencies e). lookupEntry s d \<noteq> None \<longrightarrow> rank d < rank k)"
      by (fastforce simp: dom_lookupEntry)
  qed
next
  assume "\<forall>k e. lookupEntry s k = Some e \<longrightarrow> rank k < n \<and>
        (\<forall>d \<in> set (dependencies e). lookupEntry s d \<noteq> None \<longrightarrow> rank d < rank k)"
  then show "\<forall>k \<in> fmdom' (sourceContexts s). rank k < n \<and>
        (\<forall>d \<in> set (dependencies (the (lookupEntry s k))).
           d \<in> fmdom' (sourceContexts s) \<longrightarrow> rank d < rank k)"
    by (fastforce simp: dom_lookupEntry)
qed

lemma gathering_returns:
  assumes "acyclicBelow n s rank"
  shows "\<exists>cs'. pushDependencyFiles n s entry cs = Some cs'"
proof -
  have "pushEach n s (dependencies entry) cs \<noteq> None"
  proof (rule push_returns[where rank = rank])
    fix k e d
    assume "lookupEntry s k = Some e" "d \<in> set (dependencies e)" "lookupEntry s d \<noteq> None"
    with assms show "rank d < rank k" unfolding acyclicBelow_iff by blast
  next
    from assms show "\<forall>d \<in> set (dependencies entry). lookupEntry s d \<noteq> None \<longrightarrow> rank d < n"
      unfolding acyclicBelow_iff by blast
  qed
  then show ?thesis by auto
qed

lemma pushEach_cycle:
  assumes "lookupEntry s k = Some e" and "k \<in> set (dependencies e)"
  shows "k \<in> set deps \<Longrightarrow> pushEach n s deps cs = None"
proof (induct n arbitrary: deps cs)
  case 0
  then show ?case
  proof (induct deps arbitrary: cs)
    case Nil
    then show ?case by simp
  next
    case (Cons d ds)
    show ?case
    proof (cases "d = k")
      case True
      with assms(1) show ?thesis by simp
    next
      case False
      with Cons.prems have "k \<in> set ds" by simp
      from Cons.hyps[OF this] show ?thesis by (simp split: option.splits)
    qed
  qed
next
  case (Suc m)
  from Suc.hyps[OF assms(2)] have inner: "pushDependencyFiles m s e cs' = None" for cs' by simp
  from Suc.prems show ?case
  proof (induct deps arbitrary: cs)
    case Nil
    then show ?case by simp
  next
    case (Cons d ds)
    show ?case
    proof (cases "d = k")
      case True
      with assms(1) inner show ?thesis by simp
    next
      case False
      with Cons.prems have "k \<in> set ds" by simp
      from Cons.hyps[OF this] show ?thesis by (simp split: option.splits nat.splits)
    qed
  qed
qed

lemma pushDependencyFiles_cycle:
  assumes "lookupEntry s k = Some e" and "k \<in> set (dependencies e)"
  shows "pushDependencyFiles n s e cs = None"
  using pushEach_cycle[OF assms assms(2)] by simp

lemma sentenceDependencyLoop_forwards:
  "concat (map forwardedContexts
     (fst (sentenceDependencyLoop env basePath deps :: ('g, 'o) call list \<times> bool))) = []"
  by (induct deps) (auto simp add: Let_def split_beta)

lemma debuggerDependencyLoop_forwards:
  "concat (map forwardedContexts
     (fst (debuggerDependencyLoop env dataDir deps :: ('g, 'o) call list \<times> bool))) = []"
  by (induct deps) (auto simp add: Let_def split_beta)

lemma sentenceDependencyLoop_finished:
  "snd (sentenceDependencyLoop env basePath deps :: ('g, 'o) call list \<times> bool) \<longleftrightarrow>
     \<not> (\<exists>d \<in> set deps. hasErrors env d)"
  by (induct deps) (simp_all add: Let_def split_beta)

lemma debuggerDependencyLoop_finished:
  "snd (debuggerDependencyLoop env dataDir deps :: ('g, 'o) call list \<times> bool) \<longleftrightarrow>
     \<not> (\<exists>d \<in> set deps. hasErrors env d)"
  by (induct deps) (simp_all add: Let_def split_beta)

lemma plainQueries_forward:
  assumes "getContext n env s fname None = Some (s1, ctx)"
  shows "list_all (\<lambda>q. \<exists>c. q = Some (s1, [c]) \<and> forwardedContexts c = [])
           (plainQueries n env s fname a :: (AntlrFacade \<times> ('g, 'o) call list) option list)"
  using assms
  by (simp add: plainQueries_def symbolInfoAtPosition_def infoForSymbol_def
      enclosingSymbolAtPosition_def listTopLevelSymbols_def getLexerVocabulary_def getRuleList_def
      getChannels_def getModes_def listActions_def getCodeCompletionCandidates_def
      getDiagnostics_def ruleFromPosition_def countReferences_def getSymbolOccurrences_def
      getReferenceGraph_def getRRDScript_def getATNGraph_def lexTestInput_def parseTestInput_def
      formatGrammar_def hasErrors_facade_def getContextDetails_def)

lemma plainQueries_state:
  "list_all (\<lambda>q. map_option fst q = map_option fst (getContext n env s fname None))
     (plainQueries n env s fname a :: (AntlrFacade \<times> ('g, 'o) call list) option list)"
  by (cases "getContext n env s fname None")
     (auto simp add: plainQueries_def symbolInfoAtPosition_def infoForSymbol_def
      enclosingSymbolAtPosition_def listTopLevelSymbols_def getLexerVocabulary_def getRuleList_def
      getChannels_def getModes_def listActions_def getCodeCompletionCandidates_def
      getDiagnostics_def ruleFromPosition_def countReferences_def getSymbolOccurrences_def
      getReferenceGraph_def getRRDScript_def getATNGraph_def lexTestInput_def parseTestInput_def
      formatGrammar_def hasErrors_facade_def getContextDetails_def)

lemma gathering_queries_state:
  assumes "\<forall>s1 c. getContext n env s fname None = Some (s1, c) \<longrightarrow> acyclicBelow n s1 rank"
  shows "map_option fst (generate n env s fname genOptions :: (AntlrFacade \<times> ('g, 'o) call list) option) =
           map_option fst (getContext n env s fname None)"
    and "map_option fst (generateSentence n env s fname rule options
            :: (AntlrFacade \<times> ('g, 'o) call list) option) =
           map_option fst (getContext n env s fname None)"
    and "map_option fst (createDebugger n env s fname actionFile dataDir
            :: (AntlrFacade \<times> ('g, 'o) call list) option) =
           map_option fst (getContext n env s fname None)"
proof -
  show "map_option fst (generate n env s fname genOptions :: (AntlrFacade \<times> ('g, 'o) call list) option) =
           map_option fst (getContext n env s fname None)"
  proof (cases "getContext n env s fname None")
    case None
    then show ?thesis by (simp add: generate_def)
  next
    case (Some r)
    obtain s1 ctx where r: "r = (s1, ctx)" by (cases r)
    from getContext_registers[OF Some[unfolded r]] obtain entry where
      entry: "lookupEntry s1 fname = Some entry" by blast
    from assms Some r have "acyclicBelow n s1 rank" by blast
    from gathering_returns[OF this, of entry "[]"] obtain deps where
      "pushDependencyFiles n s1 entry [] = Some deps" by blast
    with Some r entry show ?thesis by (simp add: generate_def)
  qed
  show "map_option fst (generateSentence n env s fname rule options
            :: (AntlrFacade \<times> ('g, 'o) call list) option) =
           map_option fst (getContext n env s fname None)"
  proof (cases "getContext n env s fname None")
    case None
    then show ?thesis by (simp add: generateSentence_def)
  next
    case (Some r)
    obtain s1 ctx where r: "r = (s1, ctx)" by (cases r)
    from getContext_registers[OF Some[unfolded r]] obtain entry where
      entry: "lookupEntry s1 fname = Some entry" by blast
    from assms Some r have "acyclicBelow n s1 rank" by blast
    from gathering_returns[OF this, of entry "[]"] obtain deps where
      "pushDependencyFiles n s1 entry [] = Some deps" by blast
    with Some r entry show ?thesis by (simp add: generateSentence_def split_beta)
  qed
  show "map_option fst (createDebugger n env s fname actionFile dataDir
            :: (AntlrFacade \<times> ('g, 'o) call list) option) =
           map_option fst (getContext n env s fname None)"
  proof (cases "getContext n env s fname None")
    case None
    then show ?thesis by (simp add: createDebugger_def)
  next
    case (Some r)
    obtain s1 ctx where r: "r = (s1, ctx)" by (cases r)
    from getContext_registers[OF Some[unfolded r]] obtain entry where
      entry: "lookupEntry s1 fname = Some entry" by blast
    from assms Some r have "acyclicBelow n s1 rank" by blast
    from gathering_returns[OF this, of entry "setAdd [] ctx"] obtain contexts where
      "pushDependencyFiles n s1 entry (setAdd [] ctx) = Some contexts" by blast
    with Some r entry show ?thesis by (simp add: createDebugger_def split_beta)
  qed
qed

lemma getContext_returns:
  assumes "finite (diskFiles env)" and "card (diskFiles env) < n"
  shows "\<exists>s1 entry. getContext n env s fname source = Some (s1, context entry) \<and>
           lookupEntry s1 fname = Some entry"
proof -
  have "\<exists>s1 ctx. getContext n env s fname source = Some (s1, ctx)"
  proof (cases "lookupEntry s fname")
    case None
    with loadGrammar_returns[OF assms, of s fname source] show ?thesis
      by (simp add: getContext_absent)
  next
    case (Some e)
    then show ?thesis by (simp add: getContext_def)
  qed
  then obtain s1 ctx where get: "getContext n env s fname source = Some (s1, ctx)" by blast
  from getContext_registers[OF get] get show ?thesis by blast
qed

subsection \<open>The invariants hold in every state that the facade reaches\<close>

text \<open>
  Positive counts and counts that cover the references hold of the empty facade and are
  kept by \<open>loadGrammar\<close>, \<open>releaseGrammar\<close>, \<open>setText\<close> and \<open>reparse\<close>.
\<close>

lemma countsPositive_newFacade: "countsPositive (newFacade dir)"
  by (simp add: countsPositive_def newFacade_def)

lemma loadGrammar_countsPositive:
  assumes "countsPositive s" and "loadGrammar n env s f src = Some (s', c)"
  shows "countsPositive s'"
  using loadGrammar_positive[OF _ assms(2), of "{}"] assms(1) by (simp add: countsPositive_iff)

lemma setText_lookup:
  "lookupEntry (setText s f t) k =
     map_option (\<lambda>e. if k = f then e\<lparr>context := (context e)\<lparr>sourceText := t\<rparr>\<rparr> else e)
       (lookupEntry s k)"
  by (cases "lookupEntry s f"; cases "lookupEntry s k") (auto simp: setText_def)

lemma setText_liveReferences: "liveReferences (setText s f t) d = liveReferences s d"
proof (cases "lookupEntry s f")
  case None
  then show ?thesis by (simp add: setText_def)
next
  case (Some e)
  then show ?thesis by (simp add: setText_def liveReferences_setEntry[OF Some])
qed

lemma setText_refCountsCover:
  assumes "refCountsCover s pending"
  shows "refCountsCover (setText s f t) pending"
  unfolding refCountsCover_iff setText_liveReferences setText_lookup
proof (intro conjI allI impI)
  fix d e
  assume "map_option (\<lambda>e. if d = f then e\<lparr>context := (context e)\<lparr>sourceText := t\<rparr>\<rparr> else e)
            (lookupEntry s d) = Some e"
  then obtain e0 where "lookupEntry s d = Some e0" "refCount e = refCount e0" by (auto split: if_splits)
  with assms show "int (liveReferences s d) + int (count pending d) \<le> refCount e"
    unfolding refCountsCover_iff by fastforce
next
  fix k e d
  assume "map_option (\<lambda>e. if k = f then e\<lparr>context := (context e)\<lparr>sourceText := t\<rparr>\<rparr> else e)
            (lookupEntry s k) = Some e" and d: "d \<in> set (dependencies e)"
  then obtain e0 where "lookupEntry s k = Some e0" "dependencies e = dependencies e0"
    by (auto split: if_splits)
  with assms d obtain ed where "lookupEntry s d = Some ed"
    unfolding refCountsCover_iff by metis
  then show "\<exists>ed. map_option (\<lambda>e. if d = f then e\<lparr>context := (context e)\<lparr>sourceText := t\<rparr>\<rparr> else e)
                   (lookupEntry s d) = Some ed" by simp
qed

lemma setText_countsPositive:
  assumes "countsPositive s"
  shows "countsPositive (setText s f t)"
  unfolding countsPositive_iff countsPositiveBut_def setText_lookup
proof (intro allI impI)
  fix k e
  assume "map_option (\<lambda>e. if k = f then e\<lparr>context := (context e)\<lparr>sourceText := t\<rparr>\<rparr> else e)
            (lookupEntry s k) = Some e"
  then obtain e0 where "lookupEntry s k = Some e0" "refCount e = refCount e0" by (auto split: if_splits)
  with assms show "if k \<in> {} then 0 \<le> refCount e else 1 \<le> refCount e"
    unfolding countsPositive_iff countsPositiveBut_def by fastforce
qed

text \<open>\<open>d/S.g4\<close> imports itself: once it is loaded, its entry lists itself, and no
  fuel is enough to gather its dependencies.\<close>

lemma getDependencies_self_import:
  "getDependencies n (afterLoad 2 sampleEnv (newFacade ''.'') ''d/S.g4'') ''d/S.g4'' = None"
proof -
  let ?s = "afterLoad 2 sampleEnv (newFacade ''.'') ''d/S.g4''"
  let ?e = "\<lparr>context = \<lparr>ctx_id = 0, fileName = ''d/S.g4'', sourceText = ''import S;''\<rparr>,
            refCount = 2, dependencies = [''d/S.g4''], grammar = ''d/S.g4''\<rparr>"
  have found: "lookupEntry ?s ''d/S.g4'' = Some ?e" by code_simp
  have "''d/S.g4'' \<in> set (dependencies ?e)" by simp
  from pushDependencyFiles_cycle[OF found this, of n "[]"] found show ?thesis
    by (simp add: getDependencies_def)
qed

section \<open>The claims\<close>

text \<open>
  C9. In every state of the manager, however many grammar contexts are loaded,
  \<open>getSelfDiagnostics\<close> returns \<open>contextCount\<close> 0: it reads the \<open>length\<close> property of the
  map's \<open>keys\<close> method, which is 0, and not the size of the map.
\<close>

theorem getSelfDiagnostics_contextCount_zero:
  "contextCount (getSelfDiagnostics s) = 0 \<and>
   contextCount (getSelfDiagnostics cycleFacade) = 0 \<and> contextCard cycleFacade = 2"
proof -
  have "contextCount (getSelfDiagnostics s) = 0" for s
    by (simp add: getSelfDiagnostics_def Map_keys_length_def)
  moreover have "contextCard cycleFacade = 2"
    by (simp add: contextCard_def cycleFacade_def setEntry_def newFacade_def)
  ultimately show ?thesis by simp
qed

text \<open>
  C8. \<open>releaseGrammar\<close> terminates on every context map, cyclic dependency lists
  included: the recursion from any state and any file name is well-founded, and the map
  never has more entries afterwards. A request for a name that is not in the map changes
  nothing. When the count reaches zero the entry is deleted first and its dependencies
  are released from the map without it; an entry that is gone stays gone through every
  further release, so a later request for it inside the recursion finds nothing to do.
\<close>

theorem releaseGrammar_terminates:
  "internalReleaseGrammar_releaseDependencies_dom (Inl (s, fname)) \<and>
   contextCard (releaseGrammar s fname) \<le> contextCard s \<and>
   (lookupEntry s fname = None \<longrightarrow> releaseGrammar s fname = s) \<and>
   (\<forall>e. lookupEntry s fname = Some e \<longrightarrow> refCount e - 1 = 0 \<longrightarrow>
        releaseGrammar s fname = releaseDependencies (deleteEntry s fname) (dependencies e)) \<and>
   (\<forall>t deps. lookupEntry t fname = None \<longrightarrow>
        lookupEntry (releaseDependencies t deps) fname = None \<and>
        internalReleaseGrammar (releaseDependencies t deps) fname = releaseDependencies t deps)"
proof (intro conjI allI impI)
  show "internalReleaseGrammar_releaseDependencies_dom (Inl (s, fname))"
    by (rule release_recursion_wellfounded)
  show "contextCard (releaseGrammar s fname) \<le> contextCard s"
    by (simp add: releaseGrammar_def release_contextCard)
  show "releaseGrammar s fname = s" if "lookupEntry s fname = None"
    using that by (simp add: releaseGrammar_def internalReleaseGrammar.simps)
  show "releaseGrammar s fname = releaseDependencies (deleteEntry s fname) (dependencies e)"
    if "lookupEntry s fname = Some e" "refCount e - 1 = 0" for e
    using that by (simp add: releaseGrammar_def internalReleaseGrammar.simps)
  fix t deps
  assume absent: "lookupEntry t fname = None"
  then show gone: "lookupEntry (releaseDependencies t deps) fname = None"
    by (rule release_keeps_absent(2))
  then show "internalReleaseGrammar (releaseDependencies t deps) fname = releaseDependencies t deps"
    by (simp add: internalReleaseGrammar.simps)
qed

theorem releaseGrammar_terminates_witness:
  "lookupEntry cycleFacade ''d/A.g4'' =
     Some \<lparr>context = \<lparr>ctx_id = 0, fileName = ''d/A.g4'', sourceText = ''import B;''\<rparr>,
           refCount = 1, dependencies = [''d/B.g4''], grammar = ''d/A.g4''\<rparr> \<and>
   releaseGrammar cycleFacade ''d/A.g4'' =
     releaseDependencies (deleteEntry cycleFacade ''d/A.g4'') [''d/B.g4''] \<and>
   lookupEntry (deleteEntry cycleFacade ''d/A.g4'') ''d/A.g4'' = None \<and>
   lookupEntry (releaseDependencies (deleteEntry cycleFacade ''d/A.g4'') [''d/B.g4'']) ''d/A.g4'' = None \<and>
   sourceContexts (releaseGrammar cycleFacade ''d/A.g4'') = fmempty"
proof -
  let ?e = "\<lparr>context = \<lparr>ctx_id = 0, fileName = ''d/A.g4'', sourceText = ''import B;''\<rparr>,
           refCount = 1, dependencies = [''d/B.g4''], grammar = ''d/A.g4''\<rparr>"
  have found: "lookupEntry cycleFacade ''d/A.g4'' = Some ?e"
    by (simp add: cycleFacade_def)
  have zero: "refCount ?e - 1 = 0" by simp
  have gone: "lookupEntry (deleteEntry cycleFacade ''d/A.g4'') ''d/A.g4'' = None" by simp
  note T = releaseGrammar_terminates[of cycleFacade "''d/A.g4''"]
  from T found zero have unfold:
    "releaseGrammar cycleFacade ''d/A.g4'' =
       releaseDependencies (deleteEntry cycleFacade ''d/A.g4'') [''d/B.g4'']"
    by simp
  from T gone have stays:
    "lookupEntry (releaseDependencies (deleteEntry cycleFacade ''d/A.g4'') [''d/B.g4'']) ''d/A.g4'' = None"
    by blast
  have empty: "sourceContexts (releaseGrammar cycleFacade ''d/A.g4'') = fmempty"
    by (simp add: releaseGrammar_def internalReleaseGrammar.simps cycleFacade_def
        setEntry_def deleteEntry_def lookupEntry_def newFacade_def fmdrop_fmupd)
  from found unfold gone stays empty show ?thesis by blast
qed

text \<open>
  C1. When the name is already loaded, \<open>loadGrammar\<close> returns the context object of the
  existing entry and adds one to its reference count, whatever the fuel and the source
  argument. One \<open>releaseGrammar\<close> after such a repeated load gives back the state before
  it, entry included. A further release removes the entry when its count was 1, that is,
  when the first load was the only reference to it.
\<close>

theorem loadGrammar_twice_release_twice:
  assumes "lookupEntry s fname = Some e"
  shows "loadGrammar n env s fname source =
           Some (setEntry s fname (e\<lparr>refCount := refCount e + 1\<rparr>), context e) \<and>
         (refCount e \<noteq> 0 \<longrightarrow>
            releaseGrammar (setEntry s fname (e\<lparr>refCount := refCount e + 1\<rparr>)) fname = s) \<and>
         (refCount e = 1 \<longrightarrow> lookupEntry (releaseGrammar s fname) fname = None)"
proof (intro conjI impI)
  show "loadGrammar n env s fname source =
           Some (setEntry s fname (e\<lparr>refCount := refCount e + 1\<rparr>), context e)"
    using assms by (rule loadGrammar_loaded)
  show "releaseGrammar (setEntry s fname (e\<lparr>refCount := refCount e + 1\<rparr>)) fname = s"
    if "refCount e \<noteq> 0"
  proof -
    have "releaseGrammar (setEntry s fname (e\<lparr>refCount := refCount e + 1\<rparr>)) fname =
            setEntry (setEntry s fname (e\<lparr>refCount := refCount e + 1\<rparr>)) fname e"
      using that by (simp add: releaseGrammar_def internalReleaseGrammar.simps)
    also have "\<dots> = s" using assms by (intro facade_eqI) auto
    finally show ?thesis .
  qed
  show "lookupEntry (releaseGrammar s fname) fname = None" if "refCount e = 1"
  proof -
    have "releaseGrammar s fname = releaseDependencies (deleteEntry s fname) (dependencies e)"
      using assms that by (simp add: releaseGrammar_def internalReleaseGrammar.simps)
    moreover have "lookupEntry (deleteEntry s fname) fname = None" by simp
    ultimately show ?thesis by (simp add: release_keeps_absent(2))
  qed
qed

theorem loadGrammar_twice_release_twice_witness:
  "lookupEntry (afterLoad 1 sampleEnv (newFacade ''.'') ''d/B.g4'') ''d/B.g4'' =
     Some \<lparr>context = \<lparr>ctx_id = 0, fileName = ''d/B.g4'', sourceText = ''b''\<rparr>,
           refCount = 1, dependencies = [], grammar = ''d/B.g4''\<rparr> \<and>
   loadGrammar 0 sampleEnv (afterLoad 1 sampleEnv (newFacade ''.'') ''d/B.g4'') ''d/B.g4'' None =
     Some (setEntry (afterLoad 1 sampleEnv (newFacade ''.'') ''d/B.g4'') ''d/B.g4''
             \<lparr>context = \<lparr>ctx_id = 0, fileName = ''d/B.g4'', sourceText = ''b''\<rparr>,
              refCount = 2, dependencies = [], grammar = ''d/B.g4''\<rparr>,
           \<lparr>ctx_id = 0, fileName = ''d/B.g4'', sourceText = ''b''\<rparr>) \<and>
   releaseGrammar
     (setEntry (afterLoad 1 sampleEnv (newFacade ''.'') ''d/B.g4'') ''d/B.g4''
        \<lparr>context = \<lparr>ctx_id = 0, fileName = ''d/B.g4'', sourceText = ''b''\<rparr>,
         refCount = 2, dependencies = [], grammar = ''d/B.g4''\<rparr>) ''d/B.g4'' =
     afterLoad 1 sampleEnv (newFacade ''.'') ''d/B.g4'' \<and>
   lookupEntry (releaseGrammar (afterLoad 1 sampleEnv (newFacade ''.'') ''d/B.g4'') ''d/B.g4'')
     ''d/B.g4'' = None"
proof -
  let ?s = "afterLoad 1 sampleEnv (newFacade ''.'') ''d/B.g4''"
  let ?e = "\<lparr>context = \<lparr>ctx_id = 0, fileName = ''d/B.g4'', sourceText = ''b''\<rparr>,
           refCount = 1, dependencies = [], grammar = ''d/B.g4''\<rparr>"
  have found: "lookupEntry ?s ''d/B.g4'' = Some ?e" by code_simp
  from loadGrammar_twice_release_twice[OF found, of 0 sampleEnv None] found
  show ?thesis by simp
qed

text \<open>
  C1, the second release does not always remove the entry: \<open>d/S.g4\<close> imports itself, so
  its first load leaves the count at 2. Loaded twice from the empty map and released
  twice, it is still in the map with count 1.
\<close>

theorem loadGrammar_twice_release_twice_counterexample:
  "lookupEntry (newFacade ''.'') ''d/S.g4'' = None \<and>
   map_option snd (loadGrammar 2 sampleEnv (newFacade ''.'') ''d/S.g4'' None) =
     Some \<lparr>ctx_id = 0, fileName = ''d/S.g4'', sourceText = ''import S;''\<rparr> \<and>
   map_option snd (loadGrammar 2 sampleEnv
       (fst (the (loadGrammar 2 sampleEnv (newFacade ''.'') ''d/S.g4'' None))) ''d/S.g4'' None) =
     Some \<lparr>ctx_id = 0, fileName = ''d/S.g4'', sourceText = ''import S;''\<rparr> \<and>
   lookupEntry
     (releaseGrammar
        (releaseGrammar
           (fst (the (loadGrammar 2 sampleEnv
              (fst (the (loadGrammar 2 sampleEnv (newFacade ''.'') ''d/S.g4'' None)))
              ''d/S.g4'' None)))
           ''d/S.g4'')
        ''d/S.g4'')
     ''d/S.g4'' =
     Some \<lparr>context = \<lparr>ctx_id = 0, fileName = ''d/S.g4'', sourceText = ''import S;''\<rparr>,
           refCount = 1, dependencies = [''d/S.g4''], grammar = ''d/S.g4''\<rparr>"
  by code_simp

text \<open>
  C5. \<open>getContext\<close>, through which every query resolves its grammar, returns the context
  of a loaded grammar and leaves the state as it is. For a grammar that is not loaded it
  is \<open>loadGrammar\<close>: on a disk with finitely many files and with fuel above their number
  it returns, and the grammar is then registered with a reference count of one more than
  the number of dependency list entries naming it that the load has added, so with 1
  when nothing it depends on refers back to it; the surplus of every other grammar is
  as before. Every query that resolves the grammar and calls one method of its context
  leaves the state that \<open>getContext\<close> leaves, and so do \<open>generate\<close>,
  \<open>generateSentence\<close> and \<open>createDebugger\<close> when the stored dependency lists of that
  state have no cycle.
\<close>

theorem getContext_reference_count:
  assumes "finite (diskFiles env)" and "card (diskFiles env) < n"
  shows "(\<forall>e. lookupEntry s fname = Some e \<longrightarrow>
            getContext n env s fname source = Some (s, context e)) \<and>
         (lookupEntry s fname = None \<longrightarrow>
            (\<exists>s' e'. getContext n env s fname source = Some (s', context e') \<and>
               loadGrammar n env s fname source = Some (s', context e') \<and>
               lookupEntry s' fname = Some e' \<and> 1 \<le> refCount e' \<and>
               refCount e' = 1 + int (liveReferences s' fname) - int (liveReferences s fname) \<and>
               (liveReferences s' fname = liveReferences s fname \<longrightarrow> refCount e' = 1) \<and>
               (\<forall>d. d \<noteq> fname \<longrightarrow> held s' d = held s d))) \<and>
         list_all (\<lambda>q. map_option fst q = map_option fst (getContext n env s fname None))
           (plainQueries n env s fname a :: (AntlrFacade \<times> ('g, 'o) call list) option list) \<and>
         ((\<forall>s1 c. getContext n env s fname None = Some (s1, c) \<longrightarrow> acyclicBelow n s1 rank) \<longrightarrow>
            map_option fst (generate n env s fname genOptions
                :: (AntlrFacade \<times> ('g, 'o) call list) option) =
              map_option fst (getContext n env s fname None) \<and>
            map_option fst (generateSentence n env s fname rule options
                :: (AntlrFacade \<times> ('g, 'o) call list) option) =
              map_option fst (getContext n env s fname None) \<and>
            map_option fst (createDebugger n env s fname actionFile dataDir
                :: (AntlrFacade \<times> ('g, 'o) call list) option) =
              map_option fst (getContext n env s fname None))"
proof (intro conjI allI impI)
  show "getContext n env s fname source = Some (s, context e)"
    if "lookupEntry s fname = Some e" for e
    using that by (simp add: getContext_def)
  show "\<exists>s' e'. getContext n env s fname source = Some (s', context e') \<and>
               loadGrammar n env s fname source = Some (s', context e') \<and>
               lookupEntry s' fname = Some e' \<and> 1 \<le> refCount e' \<and>
               refCount e' = 1 + int (liveReferences s' fname) - int (liveReferences s fname) \<and>
               (liveReferences s' fname = liveReferences s fname \<longrightarrow> refCount e' = 1) \<and>
               (\<forall>d. d \<noteq> fname \<longrightarrow> held s' d = held s d)"
    if absent: "lookupEntry s fname = None"
  proof -
    from loadGrammar_returns[OF assms, of s fname source]
    obtain s' c where load: "loadGrammar n env s fname source = Some (s', c)" by blast
    from loadGrammar_fresh_result[OF absent load]
    obtain e' where e': "lookupEntry s' fname = Some e'" "context e' = c" "1 \<le> refCount e'"
      by blast
    from loadGrammar_held[OF load, of fname] absent e'(1)
    have count: "refCount e' = 1 + int (liveReferences s' fname) - int (liveReferences s fname)"
      by (simp add: held_def)
    have others: "\<forall>d. d \<noteq> fname \<longrightarrow> held s' d = held s d"
      using loadGrammar_held[OF load] by simp
    from load e' count others absent show ?thesis
      by (intro exI[of _ s'] exI[of _ e']) (simp add: getContext_absent)
  qed
  show "list_all (\<lambda>q. map_option fst q = map_option fst (getContext n env s fname None))
           (plainQueries n env s fname a :: (AntlrFacade \<times> ('g, 'o) call list) option list)"
    by (rule plainQueries_state)
next
  assume acyclic: "\<forall>s1 c. getContext n env s fname None = Some (s1, c) \<longrightarrow> acyclicBelow n s1 rank"
  note states = gathering_queries_state[OF acyclic, where ?'g = 'g and ?'o = 'o]
  show "map_option fst (generate n env s fname genOptions
                :: (AntlrFacade \<times> ('g, 'o) call list) option) =
              map_option fst (getContext n env s fname None)"
    by (rule states(1))
  show "map_option fst (generateSentence n env s fname rule options
                :: (AntlrFacade \<times> ('g, 'o) call list) option) =
              map_option fst (getContext n env s fname None)"
    by (rule states(2))
  show "map_option fst (createDebugger n env s fname actionFile dataDir
                :: (AntlrFacade \<times> ('g, 'o) call list) option) =
              map_option fst (getContext n env s fname None)"
    by (rule states(3))
qed

theorem getContext_reference_count_witness:
  "finite (diskFiles healthyEnv) \<and> card (diskFiles healthyEnv) < 7 \<and>
   lookupEntry (newFacade ''.'') ''d/G.g4'' = None \<and>
   (\<exists>s' e'. getContext 7 healthyEnv (newFacade ''.'') ''d/G.g4'' None = Some (s', context e') \<and>
      lookupEntry s' ''d/G.g4'' = Some e' \<and> refCount e' = 1 \<and>
      s' = afterLoad 7 healthyEnv (newFacade ''.'') ''d/G.g4'') \<and>
   getContext 7 healthyEnv (afterLoad 7 healthyEnv (newFacade ''.'') ''d/G.g4'') ''d/G.g4'' None =
     Some (afterLoad 7 healthyEnv (newFacade ''.'') ''d/G.g4'',
           \<lparr>ctx_id = 0, fileName = ''d/G.g4'', sourceText = ''import A, B;''\<rparr>) \<and>
   list_all (\<lambda>q. map_option fst q = Some (afterLoad 7 healthyEnv (newFacade ''.'') ''d/G.g4''))
     (plainQueries 7 healthyEnv (newFacade ''.'') ''d/G.g4''
        \<lparr>arg_column = 0, arg_row = 0, arg_flag = True, arg_symbol = ''x'', arg_rule = ''r'',
         arg_input = ''i'', arg_actionFile = None, arg_formatting = [], arg_start = 0,
         arg_stop = 0\<rparr> :: (AntlrFacade \<times> (unit, unit) call list) option list) \<and>
   acyclicBelow 7 (afterLoad 7 healthyEnv (newFacade ''.'') ''d/G.g4'')
     (\<lambda>p. if p = ''d/G.g4'' then 2 else if p = ''d/A.g4'' then 1 else 0) \<and>
   map_option fst (generate 7 healthyEnv (newFacade ''.'') ''d/G.g4'' ()
       :: (AntlrFacade \<times> (unit, unit) call list) option) =
     Some (afterLoad 7 healthyEnv (newFacade ''.'') ''d/G.g4'') \<and>
   map_option fst (generateSentence 7 healthyEnv (newFacade ''.'') ''d/G.g4'' ''r'' ()
       :: (AntlrFacade \<times> (unit, unit) call list) option) =
     Some (afterLoad 7 healthyEnv (newFacade ''.'') ''d/G.g4'') \<and>
   map_option fst (createDebugger 7 healthyEnv (newFacade ''.'') ''d/G.g4'' ''a.js'' ''data''
       :: (AntlrFacade \<times> (unit, unit) call list) option) =
     Some (afterLoad 7 healthyEnv (newFacade ''.'') ''d/G.g4'')"
proof -
  let ?s0 = "newFacade ''.''"
  let ?G = "''d/G.g4''"
  let ?sG = "afterLoad 7 healthyEnv ?s0 ?G"
  let ?cG = "\<lparr>ctx_id = 0, fileName = ''d/G.g4'', sourceText = ''import A, B;''\<rparr>"
  let ?a = "\<lparr>arg_column = 0, arg_row = 0, arg_flag = True, arg_symbol = ''x'', arg_rule = ''r'',
         arg_input = ''i'', arg_actionFile = None, arg_formatting = [], arg_start = 0,
         arg_stop = 0\<rparr>"
  let ?rank = "\<lambda>p. if p = ''d/G.g4'' then 2 else if p = ''d/A.g4'' then 1 else (0 :: nat)"
  have fin: "finite (diskFiles healthyEnv)"
    by (simp add: healthyEnv_def sampleDisk_def finite_diskFiles_diskEnv)
  have few: "card (diskFiles healthyEnv) < 7"
    by (simp add: healthyEnv_def sampleDisk_def card_diskFiles_diskEnv)
  have absent: "lookupEntry ?s0 ?G = None" by code_simp
  note T = getContext_reference_count[OF fin few, where ?'g = unit and ?'o = unit
      and s = ?s0 and fname = ?G and source = None and a = ?a and rank = ?rank
      and genOptions = "()" and rule = "''r''" and options = "()"
      and actionFile = "''a.js''" and dataDir = "''data''"]
  from T absent obtain s' e' where
    get: "getContext 7 healthyEnv ?s0 ?G None = Some (s', context e')" and
    load: "loadGrammar 7 healthyEnv ?s0 ?G None = Some (s', context e')" and
    e': "lookupEntry s' ?G = Some e'" and
    count: "refCount e' = 1 + int (liveReferences s' ?G) - int (liveReferences ?s0 ?G)"
    by blast
  from load have s': "s' = ?sG" by (simp add: afterLoad_def)
  have "liveReferences ?sG ?G = 0" "liveReferences ?s0 ?G = 0" by code_simp+
  with count s' have one: "refCount e' = 1" by simp
  from get e' one s' have fresh:
    "\<exists>s' e'. getContext 7 healthyEnv ?s0 ?G None = Some (s', context e') \<and>
      lookupEntry s' ?G = Some e' \<and> refCount e' = 1 \<and> s' = ?sG"
    by blast
  have found: "lookupEntry ?sG ?G =
      Some \<lparr>context = ?cG, refCount = 1, dependencies = [''d/A.g4'', ''d/B.g4''], grammar = ?G\<rparr>"
    by code_simp
  from getContext_reference_count[OF fin few, where ?'g = unit and ?'o = unit
      and s = ?sG and fname = ?G and source = None and a = ?a and rank = ?rank
      and genOptions = "()" and rule = "''r''" and options = "()"
      and actionFile = "''a.js''" and dataDir = "''data''"] found
  have again: "getContext 7 healthyEnv ?sG ?G None = Some (?sG, ?cG)" by simp
  from get s' have state: "map_option fst (getContext 7 healthyEnv ?s0 ?G None) = Some ?sG" by simp
  from T have plain: "list_all (\<lambda>q. map_option fst q = Some ?sG)
     (plainQueries 7 healthyEnv ?s0 ?G ?a :: (AntlrFacade \<times> (unit, unit) call list) option list)"
    unfolding state by blast
  have acyclic: "acyclicBelow 7 ?sG ?rank" by code_simp
  with get s' have "\<forall>s1 c. getContext 7 healthyEnv ?s0 ?G None = Some (s1, c) \<longrightarrow>
      acyclicBelow 7 s1 ?rank" by simp
  with T have gathering:
    "map_option fst (generate 7 healthyEnv ?s0 ?G ()
       :: (AntlrFacade \<times> (unit, unit) call list) option) = Some ?sG"
    "map_option fst (generateSentence 7 healthyEnv ?s0 ?G ''r'' ()
       :: (AntlrFacade \<times> (unit, unit) call list) option) = Some ?sG"
    "map_option fst (createDebugger 7 healthyEnv ?s0 ?G ''a.js'' ''data''
       :: (AntlrFacade \<times> (unit, unit) call list) option) = Some ?sG"
    unfolding state by blast+
  from fin few absent fresh again plain acyclic gathering show ?thesis by blast
qed

text \<open>
  C5, a query on a grammar that was never loaded does register it with a count: from the
  empty map, \<open>getContext\<close> on \<open>d/B.g4\<close> leaves the entry with reference count 1.
\<close>

theorem getContext_reference_count_counterexample:
  "lookupEntry (newFacade ''.'') ''d/B.g4'' = None \<and>
   map_option snd (getContext 1 sampleEnv (newFacade ''.'') ''d/B.g4'' None) =
     Some \<lparr>ctx_id = 0, fileName = ''d/B.g4'', sourceText = ''b''\<rparr> \<and>
   lookupEntry (fst (the (getContext 1 sampleEnv (newFacade ''.'') ''d/B.g4'' None))) ''d/B.g4'' =
     Some \<lparr>context = \<lparr>ctx_id = 0, fileName = ''d/B.g4'', sourceText = ''b''\<rparr>,
           refCount = 1, dependencies = [], grammar = ''d/B.g4''\<rparr>"
  by code_simp

text \<open>
  C6. For a referenced grammar name, \<open>loadDependency\<close> tries exactly four candidate
  paths in order: \<open>name.g4\<close> and \<open>name.g\<close> under the import path (the configured import
  directory if it is absolute, else the grammar's directory joined with it), then
  \<open>name.g4\<close> and \<open>name.g\<close> under the grammar's directory. The first two are accepted if
  \<open>fs.accessSync\<close> grants read access, the last two if \<open>fs.statSync\<close> finds them. The
  first accepted path is appended to the entry's dependency list and loaded. If no
  candidate is accepted, the state is returned unchanged with no context and no error,
  whatever the fuel.
\<close>

theorem loadDependency_candidates:
  "loadDependency n env s contextEntry depName =
     (case locateDependency env s contextEntry depName of
        None \<Rightarrow> Some (s, None)
      | Some depPath \<Rightarrow>
          withContext (loadGrammar n env (pushDependency s contextEntry depPath) depPath None)) \<and>
   length (candidates env s contextEntry depName) = 4 \<and>
   (locateDependency env s contextEntry depName = None \<longleftrightarrow>
      (\<forall>c \<in> set (candidates env s contextEntry depName). \<not> snd c)) \<and>
   (\<forall>p. locateDependency env s contextEntry depName = Some p \<longleftrightarrow>
      (\<exists>i < 4. candidates env s contextEntry depName ! i = (p, True) \<and>
               (\<forall>j < i. \<not> snd (candidates env s contextEntry depName ! j)))) \<and>
   (\<forall>p e. lookupEntry s (grammar contextEntry) = Some e \<longrightarrow>
      lookupEntry (pushDependency s contextEntry p) (grammar contextEntry) =
        Some (e\<lparr>dependencies := dependencies e @ [p]\<rparr>))"
proof (intro conjI allI impI)
  let ?cs = "candidates env s contextEntry depName"
  show "loadDependency n env s contextEntry depName =
     (case locateDependency env s contextEntry depName of
        None \<Rightarrow> Some (s, None)
      | Some depPath \<Rightarrow>
          withContext (loadGrammar n env (pushDependency s contextEntry depPath) depPath None))"
    by (rule loadDependency_locate)
  show len: "length ?cs = 4" by (rule length_candidates)
  show "locateDependency env s contextEntry depName = None \<longleftrightarrow> (\<forall>c \<in> set ?cs. \<not> snd c)"
    unfolding locateDependency_def map_option_is_None find_None_iff by fastforce
  show "locateDependency env s contextEntry depName = Some p \<longleftrightarrow>
      (\<exists>i < 4. ?cs ! i = (p, True) \<and> (\<forall>j < i. \<not> snd (?cs ! j)))" for p
  proof
    assume "locateDependency env s contextEntry depName = Some p"
    then obtain c where c: "find snd ?cs = Some c" "fst c = p"
      by (auto simp: locateDependency_def)
    from c(1) obtain i where "i < length ?cs" "snd (?cs ! i)" "c = ?cs ! i"
        "\<forall>j < i. \<not> snd (?cs ! j)"
      unfolding find_Some_iff by blast
    with c(2) len show "\<exists>i < 4. ?cs ! i = (p, True) \<and> (\<forall>j < i. \<not> snd (?cs ! j))"
      by (intro exI[of _ i]) (auto simp: prod_eq_iff)
  next
    assume "\<exists>i < 4. ?cs ! i = (p, True) \<and> (\<forall>j < i. \<not> snd (?cs ! j))"
    then obtain i where i: "i < 4" "?cs ! i = (p, True)" "\<forall>j < i. \<not> snd (?cs ! j)" by blast
    with len have "find snd ?cs = Some (p, True)"
      unfolding find_Some_iff by (intro exI[of _ i]) auto
    then show "locateDependency env s contextEntry depName = Some p"
      by (simp add: locateDependency_def)
  qed
  show "lookupEntry (pushDependency s contextEntry p) (grammar contextEntry) =
        Some (e\<lparr>dependencies := dependencies e @ [p]\<rparr>)"
    if "lookupEntry s (grammar contextEntry) = Some e" for p e
    using that by (simp add: pushDependency_lookup)
qed

theorem loadDependency_candidates_witness:
  "candidates sampleEnv (facadeWithG ''/imp'') gEntry ''B'' =
     [(''/imp/B.g4'', False), (''/imp/B.g'', False), (''d/B.g4'', True), (''d/B.g'', False)] \<and>
   locateDependency sampleEnv (facadeWithG ''/imp'') gEntry ''B'' = Some ''d/B.g4'' \<and>
   loadDependency 1 sampleEnv (facadeWithG ''/imp'') gEntry ''B'' =
     withContext (loadGrammar 1 sampleEnv
        (pushDependency (facadeWithG ''/imp'') gEntry ''d/B.g4'') ''d/B.g4'' None) \<and>
   lookupEntry (pushDependency (facadeWithG ''/imp'') gEntry ''d/B.g4'') ''d/G.g4'' =
     Some (gEntry\<lparr>dependencies := [''d/B.g4'']\<rparr>) \<and>
   candidates sampleEnv (facadeWithG ''/imp'') gEntry ''Z'' =
     [(''/imp/Z.g4'', False), (''/imp/Z.g'', False), (''d/Z.g4'', False), (''d/Z.g'', False)] \<and>
   loadDependency 1 sampleEnv (facadeWithG ''/imp'') gEntry ''Z'' =
     Some (facadeWithG ''/imp'', None)"
proof -
  let ?s = "facadeWithG ''/imp''"
  note TB = loadDependency_candidates[of 1 sampleEnv ?s gEntry "''B''"]
  note TZ = loadDependency_candidates[of 1 sampleEnv ?s gEntry "''Z''"]
  have cs: "candidates sampleEnv ?s gEntry ''B'' =
     [(''/imp/B.g4'', False), (''/imp/B.g'', False), (''d/B.g4'', True), (''d/B.g'', False)]"
    by code_simp
  have "\<exists>i < 4. candidates sampleEnv ?s gEntry ''B'' ! i = (''d/B.g4'', True) \<and>
               (\<forall>j < i. \<not> snd (candidates sampleEnv ?s gEntry ''B'' ! j))"
    unfolding cs by (intro exI[of _ 2]) (simp add: less_Suc_eq numeral_2_eq_2)
  with TB have loc: "locateDependency sampleEnv ?s gEntry ''B'' = Some ''d/B.g4''" by blast
  with TB have load: "loadDependency 1 sampleEnv ?s gEntry ''B'' =
     withContext (loadGrammar 1 sampleEnv (pushDependency ?s gEntry ''d/B.g4'') ''d/B.g4'' None)"
    by simp
  have g: "grammar gEntry = ''d/G.g4''" by (simp add: gEntry_def)
  have "lookupEntry ?s (grammar gEntry) = Some gEntry"
    by (simp add: facadeWithG_def g)
  with TB have "lookupEntry (pushDependency ?s gEntry ''d/B.g4'') (grammar gEntry) =
     Some (gEntry\<lparr>dependencies := dependencies gEntry @ [''d/B.g4'']\<rparr>)" by blast
  then have push: "lookupEntry (pushDependency ?s gEntry ''d/B.g4'') ''d/G.g4'' =
     Some (gEntry\<lparr>dependencies := [''d/B.g4'']\<rparr>)"
    by (simp add: g) (simp add: gEntry_def)
  have csZ: "candidates sampleEnv ?s gEntry ''Z'' =
     [(''/imp/Z.g4'', False), (''/imp/Z.g'', False), (''d/Z.g4'', False), (''d/Z.g'', False)]"
    by code_simp
  then have "\<forall>c \<in> set (candidates sampleEnv ?s gEntry ''Z''). \<not> snd c" by simp
  with TZ have "locateDependency sampleEnv ?s gEntry ''Z'' = None" by blast
  with TZ have skip: "loadDependency 1 sampleEnv ?s gEntry ''Z'' = Some (?s, None)" by simp
  from cs loc load push csZ skip show ?thesis by blast
qed

text \<open>
  C6, the first candidate that exists is not always the one accepted: \<open>/imp/B.g4\<close>
  exists but cannot be read, so \<open>d/B.g4\<close> is recorded and loaded and \<open>/imp/B.g4\<close> is
  not.
\<close>

theorem loadDependency_candidates_counterexample:
  "candidatePaths sampleEnv (facadeWithG ''/imp'') gEntry ''B'' =
     [''/imp/B.g4'', ''/imp/B.g'', ''d/B.g4'', ''d/B.g''] \<and>
   fs_statSync sampleEnv ''/imp/B.g4'' \<and>
   firstExisting sampleEnv (facadeWithG ''/imp'') gEntry ''B'' = Some ''/imp/B.g4'' \<and>
   map_option snd (loadDependency 1 sampleEnv (facadeWithG ''/imp'') gEntry ''B'') =
     Some (Some \<lparr>ctx_id = 1, fileName = ''d/B.g4'', sourceText = ''b''\<rparr>) \<and>
   map_option dependencies
     (lookupEntry (fst (the (loadDependency 1 sampleEnv (facadeWithG ''/imp'') gEntry ''B'')))
        ''d/G.g4'') = Some [''d/B.g4''] \<and>
   lookupEntry (fst (the (loadDependency 1 sampleEnv (facadeWithG ''/imp'') gEntry ''B'')))
     ''/imp/B.g4'' = None"
  by code_simp

text \<open>
  C7. For a file name that is not loaded and whose file is missing or cannot be read, on
  a disk with finitely many files \<open>loadGrammar\<close> without a source argument returns for
  every fuel above their number. The new context holds the empty string and is
  registered under the name. The initial parse has run: the entry's dependency list is
  the list of located paths of the grammar names that parsing the empty string yields,
  each of them is loaded, and every entry that was in the map is still there. The
  reference count is 1 plus the number of dependency list entries naming the file that
  the load has added. When parsing the empty string yields no names, the result is the
  map with this one entry more, with reference count 1 and no dependencies.
\<close>

theorem loadGrammar_unreadable_file:
  assumes "lookupEntry s fname = None"
    and "\<not> fs_statSync env fname \<or> fs_readFileSync env fname = None"
    and "finite (diskFiles env)" and "card (diskFiles env) < n"
  shows "\<exists>s' e'.
     loadGrammar n env s fname None =
       Some (s', \<lparr>ctx_id = nextContext s, fileName = fname, sourceText = []\<rparr>) \<and>
     lookupEntry s' fname = Some e' \<and>
     context e' = \<lparr>ctx_id = nextContext s, fileName = fname, sourceText = []\<rparr> \<and>
     grammar e' = fname \<and>
     dependencies e' = resolveAll env s e' (parse env []) \<and>
     (\<forall>p \<in> set (dependencies e'). lookupEntry s' p \<noteq> None) \<and>
     refCount e' = 1 + int (liveReferences s' fname) - int (liveReferences s fname) \<and>
     (liveReferences s' fname = liveReferences s fname \<longrightarrow> refCount e' = 1) \<and>
     extends fname [] s s' \<and>
     (parse env [] = [] \<longrightarrow>
        s' = (setEntry s fname
                \<lparr>context = \<lparr>ctx_id = nextContext s, fileName = fname, sourceText = []\<rparr>,
                 refCount = 1, dependencies = [], grammar = fname\<rparr>)
               \<lparr>nextContext := Suc (nextContext s)\<rparr>)"
proof -
  let ?c = "\<lparr>ctx_id = nextContext s, fileName = fname, sourceText = []\<rparr>"
  have src: "sourceOrDisk env fname None = []"
    using assms(2) by (simp add: sourceOrDisk_def readSource_unreadable)
  from loadGrammar_returns[OF assms(3,4), of s fname None]
  obtain s' c where load: "loadGrammar n env s fname None = Some (s', c)" by blast
  from loadGrammar_fresh_result[OF assms(1) load] src
  obtain e' where c: "c = ?c" and e': "lookupEntry s' fname = Some e'" "context e' = ?c"
      "grammar e' = fname" "dependencies e' = resolveAll env s e' (parse env [])"
    by auto
  note loaded = loadGrammar_fresh_loaded[OF assms(1) load e'(1)]
  from loadGrammar_held[OF load, of fname] assms(1) e'(1)
  have count: "refCount e' = 1 + int (liveReferences s' fname) - int (liveReferences s fname)"
    by (simp add: held_def)
  note ext = loadGrammar_extends[OF load, of fname]
  have exact: "s' = (setEntry s fname
                \<lparr>context = ?c, refCount = 1, dependencies = [], grammar = fname\<rparr>)
               \<lparr>nextContext := Suc (nextContext s)\<rparr>"
    if noImports: "parse env [] = []"
  proof -
    from assms(1) load obtain m where n: "n = Suc m" by (cases n) (auto simp: loadGrammar.simps)
    define ce where "ce = \<lparr>context = ?c, refCount = 0, dependencies = [], grammar = fname\<rparr>"
    define s1 where "s1 = (setEntry s fname ce)\<lparr>nextContext := Suc (nextContext s)\<rparr>"
    have in1: "lookupEntry s1 (grammar ce) = Some ce" by (simp add: s1_def ce_def)
    have "dependencies ce = []" by (simp add: ce_def)
    from parseGrammar_fresh[OF in1 this, of m env] noImports
    have p: "parseGrammar m env s1 ce = Some s1" by (simp add: ce_def)
    have "loadGrammar (Suc m) env s fname None =
            Some (modifyEntry s1 fname (\<lambda>e. e\<lparr>refCount := refCount e + 1\<rparr>), context ce)"
      using assms(1,2) p
      by (simp add: loadGrammar.simps readSource_unreadable Let_def ce_def[symmetric] s1_def[symmetric])
         (simp add: ce_def)
    moreover have "modifyEntry s1 fname (\<lambda>e. e\<lparr>refCount := refCount e + 1\<rparr>) =
        (setEntry s fname (ce\<lparr>refCount := 1\<rparr>))\<lparr>nextContext := Suc (nextContext s)\<rparr>"
      by (intro facade_eqI) (auto simp: s1_def ce_def setEntry_def modifyEntry_def lookupEntry_def)
    ultimately show ?thesis using load unfolding n by (simp add: ce_def)
  qed
  show ?thesis
  proof (rule exI[of _ s'], rule exI[of _ e'], intro conjI)
    show "loadGrammar n env s fname None = Some (s', ?c)" using load c by simp
    show "lookupEntry s' fname = Some e'" by (fact e'(1))
    show "context e' = ?c" by (fact e'(2))
    show "grammar e' = fname" by (fact e'(3))
    show "dependencies e' = resolveAll env s e' (parse env [])" by (fact e'(4))
    show "\<forall>p \<in> set (dependencies e'). lookupEntry s' p \<noteq> None" by (fact loaded)
    show "refCount e' = 1 + int (liveReferences s' fname) - int (liveReferences s fname)"
      by (fact count)
    show "liveReferences s' fname = liveReferences s fname \<longrightarrow> refCount e' = 1"
      using count by simp
    show "extends fname [] s s'" by (fact ext)
    show "parse env [] = [] \<longrightarrow>
        s' = (setEntry s fname
                \<lparr>context = ?c, refCount = 1, dependencies = [], grammar = fname\<rparr>)
               \<lparr>nextContext := Suc (nextContext s)\<rparr>"
      using exact by blast
  qed
qed

theorem loadGrammar_unreadable_file_witness:
  "lookupEntry (newFacade ''.'') ''d/t.g'' = None \<and>
   \<not> fs_statSync sampleEnv ''d/t.g'' \<and>
   finite (diskFiles sampleEnv) \<and> card (diskFiles sampleEnv) < 7 \<and>
   parse sampleEnv [] = [] \<and>
   loadGrammar 7 sampleEnv (newFacade ''.'') ''d/t.g'' None =
     Some ((setEntry (newFacade ''.'') ''d/t.g''
              \<lparr>context = \<lparr>ctx_id = 0, fileName = ''d/t.g'', sourceText = []\<rparr>,
               refCount = 1, dependencies = [], grammar = ''d/t.g''\<rparr>)\<lparr>nextContext := 1\<rparr>,
           \<lparr>ctx_id = 0, fileName = ''d/t.g'', sourceText = []\<rparr>) \<and>
   lookupEntry (newFacade ''.'') ''d/t.g4'' = None \<and>
   \<not> fs_statSync implicitEnv ''d/t.g4'' \<and>
   finite (diskFiles implicitEnv) \<and> card (diskFiles implicitEnv) < 2 \<and>
   parse implicitEnv [] = [''B''] \<and>
   (\<exists>s' e'. loadGrammar 2 implicitEnv (newFacade ''.'') ''d/t.g4'' None =
        Some (s', \<lparr>ctx_id = 0, fileName = ''d/t.g4'', sourceText = []\<rparr>) \<and>
      lookupEntry s' ''d/t.g4'' = Some e' \<and>
      dependencies e' = [''d/B.g4''] \<and> refCount e' = 1 \<and>
      map_option refCount (lookupEntry s' ''d/B.g4'') = Some 1)"
proof -
  have absent: "lookupEntry (newFacade ''.'') ''d/t.g'' = None" by code_simp
  have missing: "\<not> fs_statSync sampleEnv ''d/t.g''" by code_simp
  have fin: "finite (diskFiles sampleEnv)"
    by (simp add: sampleEnv_def sampleDisk_def finite_diskFiles_diskEnv)
  have few: "card (diskFiles sampleEnv) < 7"
    by (simp add: sampleEnv_def sampleDisk_def card_diskFiles_diskEnv)
  have noImports: "parse sampleEnv [] = []" by code_simp
  from missing have unreadable:
    "\<not> fs_statSync sampleEnv ''d/t.g'' \<or> fs_readFileSync sampleEnv ''d/t.g'' = None" by simp
  from loadGrammar_unreadable_file[OF absent unreadable fin few] noImports
  have load: "loadGrammar 7 sampleEnv (newFacade ''.'') ''d/t.g'' None =
     Some ((setEntry (newFacade ''.'') ''d/t.g''
              \<lparr>context = \<lparr>ctx_id = 0, fileName = ''d/t.g'', sourceText = []\<rparr>,
               refCount = 1, dependencies = [], grammar = ''d/t.g''\<rparr>)\<lparr>nextContext := 1\<rparr>,
           \<lparr>ctx_id = 0, fileName = ''d/t.g'', sourceText = []\<rparr>)"
    by (auto simp: newFacade_def)
  let ?s0 = "newFacade ''.''"
  let ?t = "''d/t.g4''"
  have absent2: "lookupEntry ?s0 ?t = None" by code_simp
  have missing2: "\<not> fs_statSync implicitEnv ?t" by code_simp
  have fin2: "finite (diskFiles implicitEnv)" by (simp add: implicitEnv_def finite_diskFiles_diskEnv)
  have few2: "card (diskFiles implicitEnv) < 2"
    by (simp add: implicitEnv_def card_diskFiles_diskEnv)
  have names: "parse implicitEnv [] = [''B'']" by code_simp
  from missing2 have unreadable2:
    "\<not> fs_statSync implicitEnv ?t \<or> fs_readFileSync implicitEnv ?t = None" by simp
  from loadGrammar_unreadable_file[OF absent2 unreadable2 fin2 few2]
  obtain s' e' where
    load2: "loadGrammar 2 implicitEnv ?s0 ?t None =
        Some (s', \<lparr>ctx_id = nextContext ?s0, fileName = ?t, sourceText = []\<rparr>)" and
    e': "lookupEntry s' ?t = Some e'" and
    g: "grammar e' = ?t" and
    deps: "dependencies e' = resolveAll implicitEnv ?s0 e' (parse implicitEnv [])" and
    count: "refCount e' = 1 + int (liveReferences s' ?t) - int (liveReferences ?s0 ?t)"
    by blast
  have ctx0: "nextContext ?s0 = 0" by (simp add: newFacade_def)
  from load2 have s': "s' = afterLoad 2 implicitEnv ?s0 ?t" by (simp add: afterLoad_def)
  have "resolveAll implicitEnv ?s0 e' [''B''] =
        resolveAll implicitEnv ?s0 \<lparr>context = \<lparr>ctx_id = 0, fileName = ?t, sourceText = []\<rparr>,
           refCount = 0, dependencies = [], grammar = ?t\<rparr> [''B'']"
    by (rule resolveAll_cong) (simp_all add: g)
  also have "\<dots> = [''d/B.g4'']" by code_simp
  finally have deps': "dependencies e' = [''d/B.g4'']" using deps names by simp
  have "liveReferences (afterLoad 2 implicitEnv ?s0 ?t) ?t = 0" "liveReferences ?s0 ?t = 0"
    by code_simp+
  with count s' have one: "refCount e' = 1" by simp
  have b: "map_option refCount (lookupEntry (afterLoad 2 implicitEnv ?s0 ?t) ''d/B.g4'') = Some 1"
    by code_simp
  from load2 e' deps' one b[folded s'] ctx0
  have "\<exists>s' e'. loadGrammar 2 implicitEnv (newFacade ''.'') ''d/t.g4'' None =
        Some (s', \<lparr>ctx_id = 0, fileName = ''d/t.g4'', sourceText = []\<rparr>) \<and>
      lookupEntry s' ''d/t.g4'' = Some e' \<and>
      dependencies e' = [''d/B.g4''] \<and> refCount e' = 1 \<and>
      map_option refCount (lookupEntry s' ''d/B.g4'') = Some 1"
    by auto
  with absent missing fin few noImports load absent2 missing2 fin2 few2 names show ?thesis
    by blast
qed



text \<open>
  C4. On a disk with finitely many files, with fuel above their number and with no cycle
  in the stored dependency lists of the state that \<open>getContext\<close> leaves: \<open>generate\<close>,
  \<open>generateSentence\<close>, \<open>createDebugger\<close> and \<open>getDependencies\<close> gather the contexts that
  the stored lists lead to from the grammar's entry, in the order of a depth-first walk
  that visits a dependency's own dependencies before the dependency, each object once,
  at its first visit. \<open>generate\<close> hands them over with the query and \<open>getDependencies\<close>
  returns their file names; \<open>generateSentence\<close> and \<open>createDebugger\<close> hand them over
  when none of them has errors, \<open>createDebugger\<close> with the grammar's own context in
  front, and forward no context at all otherwise. \<open>getDiagnostics\<close>, \<open>countReferences\<close>,
  \<open>symbolInfoAtPosition\<close> and every other query that calls one method of the grammar's
  context hand over no dependency context.
\<close>

theorem queries_forwarded_contexts:
  assumes "finite (diskFiles env)" and "card (diskFiles env) < n"
    and "\<forall>s1 c. getContext n env s fname None = Some (s1, c) \<longrightarrow> acyclicBelow n s1 rank"
  shows "\<exists>s1 entry walk deps contexts.
     getContext n env s fname None = Some (s1, context entry) \<and>
     lookupEntry s1 fname = Some entry \<and>
     depthFirst n s1 (dependencies entry) = Some walk \<and>
     deps = foldl setAdd [] walk \<and>
     contexts = foldl setAdd [context entry] walk \<and>
     pushDependencyFiles n s1 entry [] = Some deps \<and>
     ctx_id ` set deps = ctx_id ` dependencyClosure s1 (dependencies entry) \<and>
     set deps \<subseteq> dependencyClosure s1 (dependencies entry) \<and>
     distinct (map ctx_id deps) \<and>
     gathers s1 (dependencies entry) [context entry] contexts \<and>
     generate n env s fname genOptions =
       Some (s1, [Generate (context entry) deps genOptions :: ('g, 'o) call]) \<and>
     (\<exists>calls. generateSentence n env s fname rule options = Some (s1, calls) \<and>
        (if \<exists>d \<in> set deps. hasErrors env d
         then concat (map forwardedContexts calls) = []
         else \<exists>prepared.
                calls = prepared @ [GenerateSentence (context entry) deps rule options :: ('g, 'o) call] \<and>
                concat (map forwardedContexts prepared) = [])) \<and>
     (\<exists>calls. createDebugger n env s fname actionFile dataDir = Some (s1, calls) \<and>
        (if \<exists>d \<in> set contexts. hasErrors env d
         then concat (map forwardedContexts calls) = []
         else \<exists>prepared.
                calls = prepared @ [NewGrammarDebugger contexts actionFile :: ('g, 'o) call] \<and>
                concat (map forwardedContexts prepared) = [])) \<and>
     getDependencies n s1 fname = Some (map fileName deps) \<and>
     (lookupEntry s fname = None \<longrightarrow> getDependencies n s fname = Some []) \<and>
     list_all (\<lambda>q. \<exists>c. q = Some (s1, [c]) \<and> forwardedContexts c = [])
       (plainQueries n env s fname a :: (AntlrFacade \<times> ('g, 'o) call list) option list) \<and>
     getDiagnostics n env s fname = Some (s1, [GetDiagnostics (context entry) :: ('g, 'o) call]) \<and>
     countReferences n env s fname symbol =
       Some (s1, [GetReferenceCount (context entry) symbol :: ('g, 'o) call]) \<and>
     symbolInfoAtPosition n env s fname column row limitToChildren =
       Some (s1, [SymbolAtPosition (context entry) column row limitToChildren :: ('g, 'o) call])"
proof -
  from getContext_returns[OF assms(1,2), of s fname None]
  obtain s1 entry where get: "getContext n env s fname None = Some (s1, context entry)"
    and entry: "lookupEntry s1 fname = Some entry" by blast
  let ?ctx = "context entry"
  from assms(3) get have acyclic: "acyclicBelow n s1 rank" by blast
  from gathering_returns[OF acyclic, of entry "[]"] obtain deps where
    push: "pushDependencyFiles n s1 entry [] = Some deps" by blast
  then obtain walk where walk: "depthFirst n s1 (dependencies entry) = Some walk"
    and deps: "deps = foldl setAdd [] walk"
    unfolding push_depthFirst(1) by auto
  define contexts where "contexts = foldl setAdd [?ctx] walk"
  have pushAll: "pushDependencyFiles n s1 entry [?ctx] = Some contexts"
    unfolding push_depthFirst(1) walk contexts_def by simp
  note gathered = push_gathers(1)[OF push]
  have gen: "generate n env s fname genOptions =
       Some (s1, [Generate ?ctx deps genOptions :: ('g, 'o) call])"
    using get entry push by (simp add: generate_def)
  have sentence: "\<exists>calls. generateSentence n env s fname rule options = Some (s1, calls) \<and>
        (if \<exists>d \<in> set deps. hasErrors env d
         then concat (map forwardedContexts calls) = []
         else \<exists>prepared.
                calls = prepared @ [GenerateSentence ?ctx deps rule options :: ('g, 'o) call] \<and>
                concat (map forwardedContexts prepared) = [])"
  proof -
    define result :: "('g, 'o) call list \<times> bool"
      where "result = sentenceDependencyLoop env (path_dirname env fname) deps"
    have run: "generateSentence n env s fname rule options =
        Some (s1, if snd result then fst result @ [GenerateSentence ?ctx deps rule options]
                  else fst result)"
      using get entry push by (simp add: generateSentence_def result_def split_beta)
    have quiet: "concat (map forwardedContexts (fst result)) = []"
      unfolding result_def by (rule sentenceDependencyLoop_forwards)
    have finished: "snd result \<longleftrightarrow> \<not> (\<exists>d \<in> set deps. hasErrors env d)"
      unfolding result_def by (rule sentenceDependencyLoop_finished)
    show ?thesis
    proof (cases "\<exists>d \<in> set deps. hasErrors env d")
      case True
      with run finished quiet show ?thesis by simp
    next
      case False
      with run finished have "generateSentence n env s fname rule options =
          Some (s1, fst result @ [GenerateSentence ?ctx deps rule options])" by simp
      with False quiet show ?thesis by auto
    qed
  qed
  have debugger: "\<exists>calls. createDebugger n env s fname actionFile dataDir = Some (s1, calls) \<and>
        (if \<exists>d \<in> set contexts. hasErrors env d
         then concat (map forwardedContexts calls) = []
         else \<exists>prepared.
                calls = prepared @ [NewGrammarDebugger contexts actionFile :: ('g, 'o) call] \<and>
                concat (map forwardedContexts prepared) = [])"
  proof -
    define result :: "('g, 'o) call list \<times> bool"
      where "result = debuggerDependencyLoop env dataDir contexts"
    have run: "createDebugger n env s fname actionFile dataDir =
        Some (s1, if snd result then fst result @ [NewGrammarDebugger contexts actionFile]
                  else fst result)"
      using get entry pushAll by (simp add: createDebugger_def result_def split_beta setAdd_def)
    have quiet: "concat (map forwardedContexts (fst result)) = []"
      unfolding result_def by (rule debuggerDependencyLoop_forwards)
    have finished: "snd result \<longleftrightarrow> \<not> (\<exists>d \<in> set contexts. hasErrors env d)"
      unfolding result_def by (rule debuggerDependencyLoop_finished)
    show ?thesis
    proof (cases "\<exists>d \<in> set contexts. hasErrors env d")
      case True
      with run finished quiet show ?thesis by simp
    next
      case False
      with run finished have "createDebugger n env s fname actionFile dataDir =
          Some (s1, fst result @ [NewGrammarDebugger contexts actionFile])" by simp
      with False quiet show ?thesis by auto
    qed
  qed
  show ?thesis
  proof (rule exI[of _ s1], rule exI[of _ entry], rule exI[of _ walk], rule exI[of _ deps],
      rule exI[of _ contexts], intro conjI)
    show "getContext n env s fname None = Some (s1, ?ctx)" by (fact get)
    show "lookupEntry s1 fname = Some entry" by (fact entry)
    show "depthFirst n s1 (dependencies entry) = Some walk" by (fact walk)
    show "deps = foldl setAdd [] walk" by (fact deps)
    show "contexts = foldl setAdd [?ctx] walk" by (fact contexts_def)
    show "pushDependencyFiles n s1 entry [] = Some deps" by (fact push)
    from gathered show "ctx_id ` set deps = ctx_id ` dependencyClosure s1 (dependencies entry)"
      and "set deps \<subseteq> dependencyClosure s1 (dependencies entry)"
      and "distinct (map ctx_id deps)"
      by (simp_all add: gathers_def)
    show "gathers s1 (dependencies entry) [?ctx] contexts" by (rule push_gathers(1)[OF pushAll])
    show "generate n env s fname genOptions =
       Some (s1, [Generate ?ctx deps genOptions :: ('g, 'o) call])" by (fact gen)
    show "\<exists>calls. generateSentence n env s fname rule options = Some (s1, calls) \<and>
        (if \<exists>d \<in> set deps. hasErrors env d
         then concat (map forwardedContexts calls) = []
         else \<exists>prepared.
                calls = prepared @ [GenerateSentence ?ctx deps rule options :: ('g, 'o) call] \<and>
                concat (map forwardedContexts prepared) = [])" by (fact sentence)
    show "\<exists>calls. createDebugger n env s fname actionFile dataDir = Some (s1, calls) \<and>
        (if \<exists>d \<in> set contexts. hasErrors env d
         then concat (map forwardedContexts calls) = []
         else \<exists>prepared.
                calls = prepared @ [NewGrammarDebugger contexts actionFile :: ('g, 'o) call] \<and>
                concat (map forwardedContexts prepared) = [])" by (fact debugger)
    show "getDependencies n s1 fname = Some (map fileName deps)"
      using entry push by (simp add: getDependencies_def)
    show "lookupEntry s fname = None \<longrightarrow> getDependencies n s fname = Some []"
      by (simp add: getDependencies_def)
    show "list_all (\<lambda>q. \<exists>c. q = Some (s1, [c]) \<and> forwardedContexts c = [])
       (plainQueries n env s fname a :: (AntlrFacade \<times> ('g, 'o) call list) option list)"
      by (rule plainQueries_forward[OF get])
    show "getDiagnostics n env s fname = Some (s1, [GetDiagnostics ?ctx :: ('g, 'o) call])"
      using get by (simp add: getDiagnostics_def)
    show "countReferences n env s fname symbol =
       Some (s1, [GetReferenceCount ?ctx symbol :: ('g, 'o) call])"
      using get by (simp add: countReferences_def)
    show "symbolInfoAtPosition n env s fname column row limitToChildren =
       Some (s1, [SymbolAtPosition ?ctx column row limitToChildren :: ('g, 'o) call])"
      using get by (simp add: symbolInfoAtPosition_def)
  qed
qed

theorem queries_forwarded_contexts_witness:
  "finite (diskFiles healthyEnv) \<and> card (diskFiles healthyEnv) < 7 \<and>
   getContext 7 healthyEnv (newFacade ''.'') ''d/G.g4'' None =
     Some (afterLoad 7 healthyEnv (newFacade ''.'') ''d/G.g4'',
           \<lparr>ctx_id = 0, fileName = ''d/G.g4'', sourceText = ''import A, B;''\<rparr>) \<and>
   acyclicBelow 7 (afterLoad 7 healthyEnv (newFacade ''.'') ''d/G.g4'')
     (\<lambda>p. if p = ''d/G.g4'' then 2 else if p = ''d/A.g4'' then 1 else 0) \<and>
   lookupEntry (afterLoad 7 healthyEnv (newFacade ''.'') ''d/G.g4'') ''d/G.g4'' =
     Some \<lparr>context = \<lparr>ctx_id = 0, fileName = ''d/G.g4'', sourceText = ''import A, B;''\<rparr>,
           refCount = 1, dependencies = [''d/A.g4'', ''d/B.g4''], grammar = ''d/G.g4''\<rparr> \<and>
   depthFirst 7 (afterLoad 7 healthyEnv (newFacade ''.'') ''d/G.g4'') [''d/A.g4'', ''d/B.g4''] =
     Some [\<lparr>ctx_id = 2, fileName = ''d/B.g4'', sourceText = ''b''\<rparr>,
           \<lparr>ctx_id = 1, fileName = ''d/A.g4'', sourceText = ''import B;''\<rparr>,
           \<lparr>ctx_id = 2, fileName = ''d/B.g4'', sourceText = ''b''\<rparr>] \<and>
   generate 7 healthyEnv (newFacade ''.'') ''d/G.g4'' () =
     Some (afterLoad 7 healthyEnv (newFacade ''.'') ''d/G.g4'',
           [Generate \<lparr>ctx_id = 0, fileName = ''d/G.g4'', sourceText = ''import A, B;''\<rparr>
              [\<lparr>ctx_id = 2, fileName = ''d/B.g4'', sourceText = ''b''\<rparr>,
               \<lparr>ctx_id = 1, fileName = ''d/A.g4'', sourceText = ''import B;''\<rparr>] ()
            :: (unit, unit) call]) \<and>
   (\<exists>prepared. generateSentence 7 healthyEnv (newFacade ''.'') ''d/G.g4'' ''r'' () =
        Some (afterLoad 7 healthyEnv (newFacade ''.'') ''d/G.g4'',
              prepared @ [GenerateSentence
                 \<lparr>ctx_id = 0, fileName = ''d/G.g4'', sourceText = ''import A, B;''\<rparr>
                 [\<lparr>ctx_id = 2, fileName = ''d/B.g4'', sourceText = ''b''\<rparr>,
                  \<lparr>ctx_id = 1, fileName = ''d/A.g4'', sourceText = ''import B;''\<rparr>] ''r'' ()
                 :: (unit, unit) call]) \<and>
      concat (map forwardedContexts prepared) = []) \<and>
   (\<exists>prepared. createDebugger 7 healthyEnv (newFacade ''.'') ''d/G.g4'' ''a.js'' ''data'' =
        Some (afterLoad 7 healthyEnv (newFacade ''.'') ''d/G.g4'',
              prepared @ [NewGrammarDebugger
                 [\<lparr>ctx_id = 0, fileName = ''d/G.g4'', sourceText = ''import A, B;''\<rparr>,
                  \<lparr>ctx_id = 2, fileName = ''d/B.g4'', sourceText = ''b''\<rparr>,
                  \<lparr>ctx_id = 1, fileName = ''d/A.g4'', sourceText = ''import B;''\<rparr>] ''a.js''
                 :: (unit, unit) call]) \<and>
      concat (map forwardedContexts prepared) = []) \<and>
   getDependencies 7 (afterLoad 7 healthyEnv (newFacade ''.'') ''d/G.g4'') ''d/G.g4'' =
     Some [''d/B.g4'', ''d/A.g4''] \<and>
   getDependencies 7 (newFacade ''.'') ''d/G.g4'' = Some [] \<and>
   getDiagnostics 7 healthyEnv (newFacade ''.'') ''d/G.g4'' =
     Some (afterLoad 7 healthyEnv (newFacade ''.'') ''d/G.g4'',
           [GetDiagnostics \<lparr>ctx_id = 0, fileName = ''d/G.g4'', sourceText = ''import A, B;''\<rparr>
            :: (unit, unit) call]) \<and>
   list_all (\<lambda>q. \<exists>c. q = Some (afterLoad 7 healthyEnv (newFacade ''.'') ''d/G.g4'', [c]) \<and>
                   forwardedContexts c = [])
     (plainQueries 7 healthyEnv (newFacade ''.'') ''d/G.g4''
        \<lparr>arg_column = 0, arg_row = 0, arg_flag = True, arg_symbol = ''x'', arg_rule = ''r'',
         arg_input = ''i'', arg_actionFile = None, arg_formatting = [], arg_start = 0,
         arg_stop = 0\<rparr> :: (AntlrFacade \<times> (unit, unit) call list) option list) \<and>
   hasErrors sampleEnv \<lparr>ctx_id = 1, fileName = ''d/A.g4'', sourceText = ''import B;''\<rparr> \<and>
   (\<exists>calls. generateSentence 7 sampleEnv (newFacade ''.'') ''d/G.g4'' ''r'' () =
        Some (afterLoad 7 sampleEnv (newFacade ''.'') ''d/G.g4'', calls :: (unit, unit) call list) \<and>
      concat (map forwardedContexts calls) = []) \<and>
   (\<exists>calls. createDebugger 7 sampleEnv (newFacade ''.'') ''d/G.g4'' ''a.js'' ''data'' =
        Some (afterLoad 7 sampleEnv (newFacade ''.'') ''d/G.g4'', calls :: (unit, unit) call list) \<and>
      concat (map forwardedContexts calls) = [])"
proof -
  let ?s0 = "newFacade ''.''"
  let ?G = "''d/G.g4''"
  let ?sG = "afterLoad 7 healthyEnv ?s0 ?G"
  let ?tG = "afterLoad 7 sampleEnv ?s0 ?G"
  let ?cG = "\<lparr>ctx_id = 0, fileName = ''d/G.g4'', sourceText = ''import A, B;''\<rparr>"
  let ?eG = "\<lparr>context = ?cG, refCount = 1, dependencies = [''d/A.g4'', ''d/B.g4''],
             grammar = ''d/G.g4''\<rparr>"
  let ?cB = "\<lparr>ctx_id = 2, fileName = ''d/B.g4'', sourceText = ''b''\<rparr>"
  let ?cA = "\<lparr>ctx_id = 1, fileName = ''d/A.g4'', sourceText = ''import B;''\<rparr>"
  let ?a = "\<lparr>arg_column = 0, arg_row = 0, arg_flag = True, arg_symbol = ''x'', arg_rule = ''r'',
         arg_input = ''i'', arg_actionFile = None, arg_formatting = [], arg_start = 0,
         arg_stop = 0\<rparr>"
  let ?rank = "\<lambda>p. if p = ''d/G.g4'' then 2 else if p = ''d/A.g4'' then 1 else (0 :: nat)"
  have absent: "lookupEntry ?s0 ?G = None" by code_simp
  have fin: "finite (diskFiles healthyEnv)"
    by (simp add: healthyEnv_def sampleDisk_def finite_diskFiles_diskEnv)
  have few: "card (diskFiles healthyEnv) < 7"
    by (simp add: healthyEnv_def sampleDisk_def card_diskFiles_diskEnv)
  have "map_option snd (loadGrammar 7 healthyEnv ?s0 ?G None) = Some ?cG" by code_simp
  from afterLoad_eq[OF this] absent
  have getG: "getContext 7 healthyEnv ?s0 ?G None = Some (?sG, ?cG)"
    by (simp add: getContext_absent)
  have acyclic: "acyclicBelow 7 ?sG ?rank" by code_simp
  with getG have acyclic': "\<forall>s1 c. getContext 7 healthyEnv ?s0 ?G None = Some (s1, c) \<longrightarrow>
      acyclicBelow 7 s1 ?rank" by simp
  have entG: "lookupEntry ?sG ?G = Some ?eG" by code_simp
  have walkG: "depthFirst 7 ?sG [''d/A.g4'', ''d/B.g4''] = Some [?cB, ?cA, ?cB]" by code_simp
  have clean: "\<not> hasErrors healthyEnv ?cG" "\<not> hasErrors healthyEnv ?cB" "\<not> hasErrors healthyEnv ?cA"
    by code_simp+
  then have noErrors: "\<not> (\<exists>d \<in> set [?cB, ?cA]. hasErrors healthyEnv d)"
    "\<not> (\<exists>d \<in> set [?cG, ?cB, ?cA]. hasErrors healthyEnv d)" by simp_all
  have healthy:
    "generate 7 healthyEnv ?s0 ?G () =
       Some (?sG, [Generate ?cG [?cB, ?cA] () :: (unit, unit) call]) \<and>
     (\<exists>prepared. generateSentence 7 healthyEnv ?s0 ?G ''r'' () =
        Some (?sG, prepared @ [GenerateSentence ?cG [?cB, ?cA] ''r'' () :: (unit, unit) call]) \<and>
      concat (map forwardedContexts prepared) = []) \<and>
     (\<exists>prepared. createDebugger 7 healthyEnv ?s0 ?G ''a.js'' ''data'' =
        Some (?sG, prepared @ [NewGrammarDebugger [?cG, ?cB, ?cA] ''a.js'' :: (unit, unit) call]) \<and>
      concat (map forwardedContexts prepared) = []) \<and>
     getDependencies 7 ?sG ?G = Some [''d/B.g4'', ''d/A.g4''] \<and>
     getDependencies 7 ?s0 ?G = Some [] \<and>
     getDiagnostics 7 healthyEnv ?s0 ?G =
       Some (?sG, [GetDiagnostics ?cG :: (unit, unit) call]) \<and>
     list_all (\<lambda>q. \<exists>c. q = Some (?sG, [c]) \<and> forwardedContexts c = [])
       (plainQueries 7 healthyEnv ?s0 ?G ?a :: (AntlrFacade \<times> (unit, unit) call list) option list)"
    using queries_forwarded_contexts[OF fin few acyclic', where ?'g = unit and ?'o = unit
      and a = ?a and genOptions = "()" and rule = "''r''" and options = "()"
      and actionFile = "''a.js''" and dataDir = "''data''" and symbol = "''x''"
      and column = 0 and row = 0 and limitToChildren = True]
  proof (elim exE conjE)
    fix s1 entry walk deps contexts and calls calls2 :: "(unit, unit) call list"
    assume get: "getContext 7 healthyEnv ?s0 ?G None = Some (s1, context entry)"
      and entry: "lookupEntry s1 ?G = Some entry"
      and walk: "depthFirst 7 s1 (dependencies entry) = Some walk"
      and deps: "deps = foldl setAdd [] walk"
      and contexts: "contexts = foldl setAdd [context entry] walk"
      and gen: "generate 7 healthyEnv ?s0 ?G () =
         Some (s1, [Generate (context entry) deps () :: (unit, unit) call])"
      and run: "generateSentence 7 healthyEnv ?s0 ?G ''r'' () = Some (s1, calls)"
      and shape: "if \<exists>d \<in> set deps. hasErrors healthyEnv d
         then concat (map forwardedContexts calls) = []
         else \<exists>prepared.
                calls = prepared @ [GenerateSentence (context entry) deps ''r'' () :: (unit, unit) call] \<and>
                concat (map forwardedContexts prepared) = []"
      and run2: "createDebugger 7 healthyEnv ?s0 ?G ''a.js'' ''data'' = Some (s1, calls2)"
      and shape2: "if \<exists>d \<in> set contexts. hasErrors healthyEnv d
         then concat (map forwardedContexts calls2) = []
         else \<exists>prepared.
                calls2 = prepared @ [NewGrammarDebugger contexts ''a.js'' :: (unit, unit) call] \<and>
                concat (map forwardedContexts prepared) = []"
      and names: "getDependencies 7 s1 ?G = Some (map fileName deps)"
      and none: "lookupEntry ?s0 ?G = None \<longrightarrow> getDependencies 7 ?s0 ?G = Some []"
      and plain: "list_all (\<lambda>q. \<exists>c. q = Some (s1, [c]) \<and> forwardedContexts c = [])
         (plainQueries 7 healthyEnv ?s0 ?G ?a :: (AntlrFacade \<times> (unit, unit) call list) option list)"
      and diag: "getDiagnostics 7 healthyEnv ?s0 ?G =
         Some (s1, [GetDiagnostics (context entry) :: (unit, unit) call])"
    from get getG have s1: "s1 = ?sG" and ctx: "context entry = ?cG" by simp_all
    from entry entG s1 have ent: "entry = ?eG" by simp
    from walk walkG have w: "walk = [?cB, ?cA, ?cB]" unfolding s1 ent by simp
    have d: "deps = [?cB, ?cA]" unfolding deps w by (simp add: setAdd_def)
    have c: "contexts = [?cG, ?cB, ?cA]" unfolding contexts w ctx by (simp add: setAdd_def)
    from gen have gen': "generate 7 healthyEnv ?s0 ?G () =
        Some (?sG, [Generate ?cG [?cB, ?cA] () :: (unit, unit) call])"
      unfolding s1 ctx d .
    from shape noErrors(1) have
      "\<exists>prepared. calls = prepared @ [GenerateSentence ?cG [?cB, ?cA] ''r'' ()] \<and>
         concat (map forwardedContexts prepared) = []"
      unfolding d ctx by (simp only: if_False)
    then obtain prepared where
      "calls = prepared @ [GenerateSentence ?cG [?cB, ?cA] ''r'' ()]"
      "concat (map forwardedContexts prepared) = []"
      by (elim exE conjE)
    with run have sentence':
      "\<exists>prepared. generateSentence 7 healthyEnv ?s0 ?G ''r'' () =
          Some (?sG, prepared @ [GenerateSentence ?cG [?cB, ?cA] ''r'' () :: (unit, unit) call]) \<and>
        concat (map forwardedContexts prepared) = []"
      unfolding s1 by (intro exI[of _ prepared]) simp
    from shape2 noErrors(2) have
      "\<exists>prepared. calls2 = prepared @ [NewGrammarDebugger [?cG, ?cB, ?cA] ''a.js''] \<and>
         concat (map forwardedContexts prepared) = []"
      unfolding c by (simp only: if_False)
    then obtain prepared2 where
      "calls2 = prepared2 @ [NewGrammarDebugger [?cG, ?cB, ?cA] ''a.js'']"
      "concat (map forwardedContexts prepared2) = []"
      by (elim exE conjE)
    with run2 have debugger':
      "\<exists>prepared. createDebugger 7 healthyEnv ?s0 ?G ''a.js'' ''data'' =
          Some (?sG, prepared @ [NewGrammarDebugger [?cG, ?cB, ?cA] ''a.js'' :: (unit, unit) call]) \<and>
        concat (map forwardedContexts prepared) = []"
      unfolding s1 by (intro exI[of _ prepared2]) simp
    from names have names': "getDependencies 7 ?sG ?G = Some [''d/B.g4'', ''d/A.g4'']"
      unfolding s1 d by simp
    from none absent have none': "getDependencies 7 ?s0 ?G = Some []" by (rule mp)
    from diag have diag': "getDiagnostics 7 healthyEnv ?s0 ?G =
        Some (?sG, [GetDiagnostics ?cG :: (unit, unit) call])"
      unfolding s1 ctx .
    note plain' = plain[unfolded s1]
    show ?thesis
      by (intro conjI gen' sentence' debugger' names' none' diag' plain')
  qed
  have fin2: "finite (diskFiles sampleEnv)"
    by (simp add: sampleEnv_def sampleDisk_def finite_diskFiles_diskEnv)
  have few2: "card (diskFiles sampleEnv) < 7"
    by (simp add: sampleEnv_def sampleDisk_def card_diskFiles_diskEnv)
  have "map_option snd (loadGrammar 7 sampleEnv ?s0 ?G None) = Some ?cG" by code_simp
  from afterLoad_eq[OF this] absent
  have getT: "getContext 7 sampleEnv ?s0 ?G None = Some (?tG, ?cG)"
    by (simp add: getContext_absent)
  have "acyclicBelow 7 ?tG ?rank" by code_simp
  with getT have acyclic2: "\<forall>s1 c. getContext 7 sampleEnv ?s0 ?G None = Some (s1, c) \<longrightarrow>
      acyclicBelow 7 s1 ?rank" by simp
  have entT: "lookupEntry ?tG ?G = Some ?eG" by code_simp
  have walkT: "depthFirst 7 ?tG [''d/A.g4'', ''d/B.g4''] = Some [?cB, ?cA, ?cB]" by code_simp
  have broken: "hasErrors sampleEnv ?cA" by code_simp
  then have errors: "\<exists>d \<in> set [?cB, ?cA]. hasErrors sampleEnv d"
    "\<exists>d \<in> set [?cG, ?cB, ?cA]. hasErrors sampleEnv d" by simp_all
  have erroneous:
    "(\<exists>calls. generateSentence 7 sampleEnv ?s0 ?G ''r'' () =
        Some (?tG, calls :: (unit, unit) call list) \<and> concat (map forwardedContexts calls) = []) \<and>
     (\<exists>calls. createDebugger 7 sampleEnv ?s0 ?G ''a.js'' ''data'' =
        Some (?tG, calls :: (unit, unit) call list) \<and> concat (map forwardedContexts calls) = [])"
    using queries_forwarded_contexts[OF fin2 few2 acyclic2, where ?'g = unit and ?'o = unit
      and a = ?a and genOptions = "()" and rule = "''r''" and options = "()"
      and actionFile = "''a.js''" and dataDir = "''data''" and symbol = "''x''"
      and column = 0 and row = 0 and limitToChildren = True]
  proof (elim exE conjE)
    fix s1 entry walk deps contexts and calls calls2 :: "(unit, unit) call list"
    assume get: "getContext 7 sampleEnv ?s0 ?G None = Some (s1, context entry)"
      and entry: "lookupEntry s1 ?G = Some entry"
      and walk: "depthFirst 7 s1 (dependencies entry) = Some walk"
      and deps: "deps = foldl setAdd [] walk"
      and contexts: "contexts = foldl setAdd [context entry] walk"
      and run: "generateSentence 7 sampleEnv ?s0 ?G ''r'' () = Some (s1, calls)"
      and shape: "if \<exists>d \<in> set deps. hasErrors sampleEnv d
         then concat (map forwardedContexts calls) = []
         else \<exists>prepared.
                calls = prepared @ [GenerateSentence (context entry) deps ''r'' () :: (unit, unit) call] \<and>
                concat (map forwardedContexts prepared) = []"
      and run2: "createDebugger 7 sampleEnv ?s0 ?G ''a.js'' ''data'' = Some (s1, calls2)"
      and shape2: "if \<exists>d \<in> set contexts. hasErrors sampleEnv d
         then concat (map forwardedContexts calls2) = []
         else \<exists>prepared.
                calls2 = prepared @ [NewGrammarDebugger contexts ''a.js'' :: (unit, unit) call] \<and>
                concat (map forwardedContexts prepared) = []"
    from get getT have s1: "s1 = ?tG" and ctx: "context entry = ?cG" by simp_all
    from entry entT s1 have ent: "entry = ?eG" by simp
    from walk walkT have w: "walk = [?cB, ?cA, ?cB]" unfolding s1 ent by simp
    have d: "deps = [?cB, ?cA]" unfolding deps w by (simp add: setAdd_def)
    have c: "contexts = [?cG, ?cB, ?cA]" unfolding contexts w ctx by (simp add: setAdd_def)
    from shape errors(1) have quiet: "concat (map forwardedContexts calls) = []"
      unfolding d by (simp only: if_True)
    from shape2 errors(2) have quiet2: "concat (map forwardedContexts calls2) = []"
      unfolding c by (simp only: if_True)
    from run quiet have a: "\<exists>calls. generateSentence 7 sampleEnv ?s0 ?G ''r'' () =
        Some (?tG, calls :: (unit, unit) call list) \<and> concat (map forwardedContexts calls) = []"
      unfolding s1 by (intro exI[of _ calls] conjI)
    from run2 quiet2 have b: "\<exists>calls. createDebugger 7 sampleEnv ?s0 ?G ''a.js'' ''data'' =
        Some (?tG, calls :: (unit, unit) call list) \<and> concat (map forwardedContexts calls) = []"
      unfolding s1 by (intro exI[of _ calls2] conjI)
    from a b show ?thesis by (rule conjI)
  qed
  from fin few getG acyclic entG walkG healthy broken erroneous show ?thesis
    by (elim conjE) (intro conjI; assumption)
qed

text \<open>
  C4, diagnostics and reference counts do not come with the closure: with \<open>d/G.g4\<close>
  loaded, its closure is \<open>d/B.g4\<close> and \<open>d/A.g4\<close>; \<open>generate\<close> hands both contexts over,
  \<open>getDiagnostics\<close> and \<open>countReferences\<close> hand over none.
\<close>

theorem queries_forwarded_contexts_counterexample:
  "getDependencies 3 (afterLoad 3 sampleEnv (newFacade ''.'') ''d/G.g4'') ''d/G.g4'' =
     Some [''d/B.g4'', ''d/A.g4''] \<and>
   map_option snd (getDiagnostics 3 sampleEnv (afterLoad 3 sampleEnv (newFacade ''.'') ''d/G.g4'')
       ''d/G.g4'' :: (AntlrFacade \<times> (unit, unit) call list) option) =
     Some [GetDiagnostics \<lparr>ctx_id = 0, fileName = ''d/G.g4'', sourceText = ''import A, B;''\<rparr>] \<and>
   map_option snd (countReferences 3 sampleEnv (afterLoad 3 sampleEnv (newFacade ''.'') ''d/G.g4'')
       ''d/G.g4'' ''Semicolon'' :: (AntlrFacade \<times> (unit, unit) call list) option) =
     Some [GetReferenceCount \<lparr>ctx_id = 0, fileName = ''d/G.g4'', sourceText = ''import A, B;''\<rparr>
             ''Semicolon''] \<and>
   map_option (concat \<circ> map forwardedContexts \<circ> snd)
     (getDiagnostics 3 sampleEnv (afterLoad 3 sampleEnv (newFacade ''.'') ''d/G.g4'')
       ''d/G.g4'' :: (AntlrFacade \<times> (unit, unit) call list) option) = Some [] \<and>
   map_option (concat \<circ> map forwardedContexts \<circ> snd)
     (countReferences 3 sampleEnv (afterLoad 3 sampleEnv (newFacade ''.'') ''d/G.g4'')
       ''d/G.g4'' ''Semicolon'' :: (AntlrFacade \<times> (unit, unit) call list) option) = Some [] \<and>
   map_option (concat \<circ> map forwardedContexts \<circ> snd)
     (generate 3 sampleEnv (afterLoad 3 sampleEnv (newFacade ''.'') ''d/G.g4'')
       ''d/G.g4'' () :: (AntlrFacade \<times> (unit, unit) call list) option) =
     Some [\<lparr>ctx_id = 2, fileName = ''d/B.g4'', sourceText = ''b''\<rparr>,
           \<lparr>ctx_id = 1, fileName = ''d/A.g4'', sourceText = ''import B;''\<rparr>]"
  by code_simp



text \<open>
  C3. For a loaded grammar registered under its own name, in a state where every count
  covers the references to its entry and is positive, and on a disk with finitely many
  files, \<open>reparse\<close> with fuel above the number of files returns. It empties the stored
  list, resolves and loads the dependencies of the new parse, and then releases each
  path of the previous list exactly once, in order. The stored list is then the list of
  located paths of the new parse, and the counting invariant holds again. Every count
  has changed by exactly the change in the number of stored list entries that name its
  grammar: an entry that was loaded is unloaded if that takes its count to zero and has
  that count otherwise; a path that was not loaded is loaded exactly if a list names it
  now. For a grammar that a client holds this means: a dependency whose listings by
  other grammars are what they were ends with its count changed by its occurrences in
  the new list minus those in the old one, so one lower (unloaded at zero) if it was
  listed once and is not any more, and unchanged if it is listed once before and after.
\<close>

theorem reparse_dependencies:
  assumes "lookupEntry s G = Some e" and "grammar e = G"
    and "refCountsCover s {#}" and "countsPositive s"
    and "finite (diskFiles env)" and "card (diskFiles env) < n"
  shows "\<exists>s2 s'.
     loadNewDependencies n env (cleared s e) e (parse env (sourceText (context e))) = Some s2 \<and>
     reparse n env s G = Some s' \<and> s' = releaseDependencies s2 (dependencies e) \<and>
     (\<exists>e2. lookupEntry s2 G = Some e2 \<and> dependencies e2 = newDependencies env s e) \<and>
     (\<forall>p \<in> set (newDependencies env s e). lookupEntry s2 p \<noteq> None) \<and>
     refCountsCover s' {#} \<and> countsPositive s' \<and>
     (\<forall>e'. lookupEntry s' G = Some e' \<longrightarrow>
        dependencies e' = newDependencies env s e \<and> context e' = context e) \<and>
     (int (liveReferences s G) < refCount e \<longrightarrow> lookupEntry s' G \<noteq> None) \<and>
     (\<forall>d ed. lookupEntry s d = Some ed \<longrightarrow>
        (if refCount ed + int (liveReferences s' d) - int (liveReferences s d) = 0
         then lookupEntry s' d = None
         else map_option refCount (lookupEntry s' d) =
                Some (refCount ed + int (liveReferences s' d) - int (liveReferences s d)))) \<and>
     (\<forall>d. lookupEntry s d = None \<longrightarrow>
        (if liveReferences s' d = 0 then lookupEntry s' d = None
         else map_option refCount (lookupEntry s' d) = Some (int (liveReferences s' d)))) \<and>
     (int (liveReferences s G) < refCount e \<longrightarrow>
        (\<forall>d ed. lookupEntry s d = Some ed \<longrightarrow> listedByOthers s' G d = listedByOthers s G d \<longrightarrow>
           (if refCount ed + int (count_list (newDependencies env s e) d)
                 - int (count_list (dependencies e) d) = 0
            then lookupEntry s' d = None
            else map_option refCount (lookupEntry s' d) =
                   Some (refCount ed + int (count_list (newDependencies env s e) d)
                           - int (count_list (dependencies e) d)))))"
proof -
  from reparse_accounting[OF assms(1,2,3,5,6)] assms(4)
  obtain s2 where
    load: "loadNewDependencies n env (cleared s e) e (parse env (sourceText (context e))) = Some s2" and
    run: "reparse n env s G = Some (releaseDependencies s2 (dependencies e))" and
    e2: "\<exists>e2. lookupEntry s2 G = Some e2 \<and> dependencies e2 = newDependencies env s e \<and>
              context e2 = context e" and
    newLoaded: "\<forall>p \<in> set (newDependencies env s e). lookupEntry s2 p \<noteq> None" and
    cover': "refCountsCover (releaseDependencies s2 (dependencies e)) {#}" and
    held': "\<And>d. held (releaseDependencies s2 (dependencies e)) d = held s d" and
    positive': "countsPositive (releaseDependencies s2 (dependencies e))"
    by blast
  define s' where "s' = releaseDependencies s2 (dependencies e)"
  note cover' = cover'[folded s'_def] and held' = held'[folded s'_def]
    and positive' = positive'[folded s'_def] and run = run[folded s'_def]
  from cover' have listed': "dependenciesLoadedBut s' {}" unfolding refCountsCover_held by blast
  from assms(3) have listed: "dependenciesLoadedBut s {}" unfolding refCountsCover_held by blast
  have positive: "1 \<le> refCount ed'" if "lookupEntry s' d = Some ed'" for d ed'
    using positive' that unfolding countsPositive_iff countsPositiveBut_def by fastforce
  have kept: "dependencies e' = newDependencies env s e \<and> context e' = context e"
    if "lookupEntry s' G = Some e'" for e'
    using release_shrinks(2)[of s2 "dependencies e"] that e2 unfolding shrinks_def s'_def by fastforce
  have stays: "lookupEntry s' G \<noteq> None" if "int (liveReferences s G) < refCount e"
  proof
    assume "lookupEntry s' G = None"
    with liveReferences_absent[OF listed' this] have "held s' G = 0" by (simp add: held_def)
    with held'[of G] that assms(1) show False by (simp add: held_def)
  qed
  have general: "if refCount ed + int (liveReferences s' d) - int (liveReferences s d) = 0
         then lookupEntry s' d = None
         else map_option refCount (lookupEntry s' d) =
                Some (refCount ed + int (liveReferences s' d) - int (liveReferences s d))"
    if "lookupEntry s d = Some ed" for d ed
  proof (cases "lookupEntry s' d")
    case None
    with liveReferences_absent[OF listed' None] held'[of d] that show ?thesis
      by (simp add: held_def)
  next
    case (Some ed')
    with held'[of d] that have "refCount ed' = refCount ed + int (liveReferences s' d) - int (liveReferences s d)"
      by (simp add: held_def)
    with positive[OF Some] Some show ?thesis by simp
  qed
  have fresh: "if liveReferences s' d = 0 then lookupEntry s' d = None
         else map_option refCount (lookupEntry s' d) = Some (int (liveReferences s' d))"
    if "lookupEntry s d = None" for d
  proof (cases "lookupEntry s' d")
    case None
    with liveReferences_absent[OF listed' None] show ?thesis by simp
  next
    case (Some ed')
    with held'[of d] that liveReferences_absent[OF listed that]
    have "refCount ed' = int (liveReferences s' d)" by (simp add: held_def)
    with positive[OF Some] Some show ?thesis by simp
  qed
  have special: "if refCount ed + int (count_list (newDependencies env s e) d)
                 - int (count_list (dependencies e) d) = 0
            then lookupEntry s' d = None
            else map_option refCount (lookupEntry s' d) =
                   Some (refCount ed + int (count_list (newDependencies env s e) d)
                           - int (count_list (dependencies e) d))"
    if owner: "int (liveReferences s G) < refCount e" and d: "lookupEntry s d = Some ed"
      and others: "listedByOthers s' G d = listedByOthers s G d" for d ed
  proof -
    from stays[OF owner] obtain e' where e': "lookupEntry s' G = Some e'" by blast
    from kept[OF e'] have deps': "dependencies e' = newDependencies env s e" by simp
    from liveReferences_deleteEntry[OF e', of d] liveReferences_deleteEntry[OF assms(1), of d] others
    have "int (liveReferences s' d) - int (liveReferences s d) =
        int (count_list (newDependencies env s e) d) - int (count_list (dependencies e) d)"
      unfolding deps' listedByOthers_def by simp
    with general[OF d] show ?thesis by (simp add: algebra_simps)
  qed
  from e2 have e2': "\<exists>e2. lookupEntry s2 G = Some e2 \<and> dependencies e2 = newDependencies env s e"
    by blast
  show ?thesis
  proof (rule exI[of _ s2], rule exI[of _ s'], intro conjI)
    show "loadNewDependencies n env (cleared s e) e (parse env (sourceText (context e))) = Some s2"
      by (fact load)
    show "reparse n env s G = Some s'" by (fact run)
    show "s' = releaseDependencies s2 (dependencies e)" by (fact s'_def)
    show "\<exists>e2. lookupEntry s2 G = Some e2 \<and> dependencies e2 = newDependencies env s e"
      by (fact e2')
    show "\<forall>p \<in> set (newDependencies env s e). lookupEntry s2 p \<noteq> None" by (fact newLoaded)
    show "refCountsCover s' {#}" by (fact cover')
    show "countsPositive s'" by (fact positive')
  qed (use kept stays general fresh special in blast)+
qed


theorem reparse_dependencies_witness:
  "lookupEntry renamedFacade ''d/G.g4'' =
     Some \<lparr>context = \<lparr>ctx_id = 0, fileName = ''d/G.g4'', sourceText = ''import Y, Z;''\<rparr>,
           refCount = 1, dependencies = [''d/X.g4'', ''d/Y.g4''], grammar = ''d/G.g4''\<rparr> \<and>
   map_option refCount (lookupEntry renamedFacade ''d/X.g4'') = Some 1 \<and>
   map_option refCount (lookupEntry renamedFacade ''d/Y.g4'') = Some 1 \<and>
   lookupEntry renamedFacade ''d/Z.g4'' = None \<and>
   refCountsCover renamedFacade {#} \<and> countsPositive renamedFacade \<and>
   finite (diskFiles renameEnv) \<and> card (diskFiles renameEnv) < 5 \<and>
   newDependencies renameEnv renamedFacade
     \<lparr>context = \<lparr>ctx_id = 0, fileName = ''d/G.g4'', sourceText = ''import Y, Z;''\<rparr>,
      refCount = 1, dependencies = [''d/X.g4'', ''d/Y.g4''], grammar = ''d/G.g4''\<rparr> =
     [''d/Y.g4'', ''d/Z.g4''] \<and>
   (\<exists>s'. reparse 5 renameEnv renamedFacade ''d/G.g4'' = Some s' \<and>
      refCountsCover s' {#} \<and> countsPositive s' \<and>
      map_option dependencies (lookupEntry s' ''d/G.g4'') = Some [''d/Y.g4'', ''d/Z.g4''] \<and>
      lookupEntry s' ''d/X.g4'' = None \<and>
      map_option refCount (lookupEntry s' ''d/Y.g4'') = Some 1 \<and>
      map_option refCount (lookupEntry s' ''d/Z.g4'') = Some 1)"
proof -
  let ?s = renamedFacade
  let ?G = "''d/G.g4''"
  let ?eG = "\<lparr>context = \<lparr>ctx_id = 0, fileName = ''d/G.g4'', sourceText = ''import Y, Z;''\<rparr>,
           refCount = 1, dependencies = [''d/X.g4'', ''d/Y.g4''], grammar = ''d/G.g4''\<rparr>"
  let ?r = "the (reparse 5 renameEnv renamedFacade ''d/G.g4'')"
  have g: "lookupEntry ?s ?G = Some ?eG" by code_simp
  have x: "map_option refCount (lookupEntry ?s ''d/X.g4'') = Some 1" by code_simp
  have y: "map_option refCount (lookupEntry ?s ''d/Y.g4'') = Some 1" by code_simp
  have z: "lookupEntry ?s ''d/Z.g4'' = None" by code_simp
  have own: "grammar ?eG = ?G" by simp
  have cover: "refCountsCover ?s {#}" by code_simp
  have positive: "countsPositive ?s" by code_simp
  have fin: "finite (diskFiles renameEnv)" by (simp add: renameEnv_def diskFiles_diskEnv)
  have few: "card (diskFiles renameEnv) < 5" by (simp add: renameEnv_def diskFiles_diskEnv)
  have new: "newDependencies renameEnv ?s ?eG = [''d/Y.g4'', ''d/Z.g4'']" by code_simp
  have owner: "int (liveReferences ?s ?G) < refCount ?eG" by code_simp
  from reparse_dependencies[OF g own cover positive fin few]
  obtain s' where run: "reparse 5 renameEnv ?s ?G = Some s'"
    and cover': "refCountsCover s' {#}" and positive': "countsPositive s'"
    and kept: "\<forall>e'. lookupEntry s' ?G = Some e' \<longrightarrow> dependencies e' = newDependencies renameEnv ?s ?eG \<and>
                 context e' = context ?eG"
    and stays: "int (liveReferences ?s ?G) < refCount ?eG \<longrightarrow> lookupEntry s' ?G \<noteq> None"
    and fresh: "\<forall>d. lookupEntry ?s d = None \<longrightarrow>
        (if liveReferences s' d = 0 then lookupEntry s' d = None
         else map_option refCount (lookupEntry s' d) = Some (int (liveReferences s' d)))"
    and special: "int (liveReferences ?s ?G) < refCount ?eG \<longrightarrow>
        (\<forall>d ed. lookupEntry ?s d = Some ed \<longrightarrow> listedByOthers s' ?G d = listedByOthers ?s ?G d \<longrightarrow>
           (if refCount ed + int (count_list (newDependencies renameEnv ?s ?eG) d)
                 - int (count_list (dependencies ?eG) d) = 0
            then lookupEntry s' d = None
            else map_option refCount (lookupEntry s' d) =
                   Some (refCount ed + int (count_list (newDependencies renameEnv ?s ?eG) d)
                           - int (count_list (dependencies ?eG) d))))"
    by blast
  from run have s': "s' = ?r" by simp
  from x obtain eX where eX: "lookupEntry ?s ''d/X.g4'' = Some eX" "refCount eX = 1" by auto
  from y obtain eY where eY: "lookupEntry ?s ''d/Y.g4'' = Some eY" "refCount eY = 1" by auto
  have othersX: "listedByOthers ?r ?G ''d/X.g4'' = listedByOthers ?s ?G ''d/X.g4''" by code_simp
  have othersY: "listedByOthers ?r ?G ''d/Y.g4'' = listedByOthers ?s ?G ''d/Y.g4''" by code_simp
  have liveZ: "liveReferences ?r ''d/Z.g4'' = 1" by code_simp
  from stays owner obtain e' where e': "lookupEntry s' ?G = Some e'" by blast
  with kept new have depsG: "map_option dependencies (lookupEntry s' ?G) = Some [''d/Y.g4'', ''d/Z.g4'']"
    by simp
  from special owner eX(1) othersX[folded s']
  have "if refCount eX + int (count_list (newDependencies renameEnv ?s ?eG) ''d/X.g4'')
                 - int (count_list (dependencies ?eG) ''d/X.g4'') = 0
            then lookupEntry s' ''d/X.g4'' = None
            else map_option refCount (lookupEntry s' ''d/X.g4'') =
                   Some (refCount eX + int (count_list (newDependencies renameEnv ?s ?eG) ''d/X.g4'')
                           - int (count_list (dependencies ?eG) ''d/X.g4''))"
    by blast
  then have goneX: "lookupEntry s' ''d/X.g4'' = None" unfolding new eX(2) by simp
  from special owner eY(1) othersY[folded s']
  have "if refCount eY + int (count_list (newDependencies renameEnv ?s ?eG) ''d/Y.g4'')
                 - int (count_list (dependencies ?eG) ''d/Y.g4'') = 0
            then lookupEntry s' ''d/Y.g4'' = None
            else map_option refCount (lookupEntry s' ''d/Y.g4'') =
                   Some (refCount eY + int (count_list (newDependencies renameEnv ?s ?eG) ''d/Y.g4'')
                           - int (count_list (dependencies ?eG) ''d/Y.g4''))"
    by blast
  then have sameY: "map_option refCount (lookupEntry s' ''d/Y.g4'') = Some 1" unfolding new eY(2) by simp
  from fresh z liveZ[folded s']
  have newZ: "map_option refCount (lookupEntry s' ''d/Z.g4'') = Some 1" by simp
  from run cover' positive' depsG goneX sameY newZ
  have "\<exists>s'. reparse 5 renameEnv renamedFacade ''d/G.g4'' = Some s' \<and>
      refCountsCover s' {#} \<and> countsPositive s' \<and>
      map_option dependencies (lookupEntry s' ''d/G.g4'') = Some [''d/Y.g4'', ''d/Z.g4''] \<and>
      lookupEntry s' ''d/X.g4'' = None \<and>
      map_option refCount (lookupEntry s' ''d/Y.g4'') = Some 1 \<and>
      map_option refCount (lookupEntry s' ''d/Z.g4'') = Some 1"
    by blast
  with g x y z cover positive fin few new show ?thesis by blast
qed

text \<open>
  C3, a dependency in both the old and the new set can end with a lower count:
  \<open>d/G.g4\<close> imported \<open>A\<close> and \<open>B\<close> and now imports \<open>B\<close> only. \<open>B\<close> had count 2, for \<open>G\<close> and
  for \<open>A\<close>. Releasing the old list unloads \<open>A\<close>, which releases \<open>B\<close> once more: \<open>B\<close> ends
  with count 1.
\<close>

theorem reparse_dependencies_counterexample:
  "map_option dependencies (lookupEntry editedFacade ''d/G.g4'') = Some [''d/A.g4'', ''d/B.g4''] \<and>
   map_option (sourceText \<circ> context) (lookupEntry editedFacade ''d/G.g4'') = Some ''import B;'' \<and>
   map_option refCount (lookupEntry editedFacade ''d/B.g4'') = Some 2 \<and>
   map_option dependencies
     (lookupEntry (the (reparse 3 healthyEnv editedFacade ''d/G.g4'')) ''d/G.g4'') = Some [''d/B.g4''] \<and>
   map_option refCount
     (lookupEntry (the (reparse 3 healthyEnv editedFacade ''d/G.g4'')) ''d/B.g4'') = Some 1 \<and>
   lookupEntry (the (reparse 3 healthyEnv editedFacade ''d/G.g4'')) ''d/A.g4'' = None"
  by code_simp

end
